theory Spec2Isabelle
  imports Complex_Main "HOL-Library.Word"
begin

unbundle bit_operations_syntax

section \<open>JavaScript values\<close>

text \<open>
  The streams are TypeScript classes over \<open>Uint8Array\<close>. A JavaScript number that holds an
  integer is an \<open>int\<close> here (every integer the streams compute stays far below \<open>2^53\<close>,
  where doubles are exact). An element of a \<open>Uint8Array\<close> is an \<open>8 word\<close>. Cursor positions
  and bit counts are of the source's type \<open>UintSize\<close>, a \<open>nat\<close> here.

  The bitwise operators of JavaScript convert their operands to 32-bit integers:
  \<open>&\<close>, \<open>|\<close> and \<open><<\<close> give a signed 32-bit result, \<open>>>>\<close> an unsigned one, and a shift
  count is taken modulo 32.
\<close>

type_synonym byte = "8 word"

definition ToInt32 :: "int \<Rightarrow> 32 word" where
  "ToInt32 x = word_of_int x"

definition js_and :: "int \<Rightarrow> int \<Rightarrow> int" where
  "js_and a b = sint (ToInt32 a AND ToInt32 b)"

definition js_or :: "int \<Rightarrow> int \<Rightarrow> int" where
  "js_or a b = sint (ToInt32 a OR ToInt32 b)"

definition js_shl :: "int \<Rightarrow> int \<Rightarrow> int" where
  "js_shl a k = sint (push_bit (nat (k mod 32)) (ToInt32 a))"

definition js_ushr :: "int \<Rightarrow> int \<Rightarrow> int" where
  "js_ushr a k = uint (drop_bit (nat (k mod 32)) (ToInt32 a))"

text \<open>
  \<open>bytes[i]\<close> on a \<open>Uint8Array\<close>: the element, or \<open>undefined\<close> (\<open>None\<close>) when \<open>i\<close> is not an
  index of the array. It never throws.
\<close>

definition elem :: "byte list \<Rightarrow> nat \<Rightarrow> byte option" where
  "elem bs i = (if i < length bs then Some (bs ! i) else None)"

text \<open>
  An element as the operand of a bitwise operator: \<open>undefined\<close> converts to \<open>NaN\<close> and then
  to the 32-bit integer 0.
\<close>

definition elem_int :: "byte option \<Rightarrow> int" where
  "elem_int x = (case x of None \<Rightarrow> 0 | Some b \<Rightarrow> uint b)"

text \<open>\<open>bytes.subarray(begin, end)\<close>: both ends are clamped to the length of the array.\<close>

definition subarray :: "byte list \<Rightarrow> nat \<Rightarrow> nat \<Rightarrow> byte list" where
  "subarray bs begin end = drop begin (take end bs)"

text \<open>\<open>bytes.indexOf(v, from)\<close>: the first index at or after \<open>from\<close> holding \<open>v\<close>, or \<open>-1\<close>.\<close>

function indexOf :: "byte list \<Rightarrow> byte \<Rightarrow> nat \<Rightarrow> int" where
  "indexOf bs v from =
     (if from < length bs
      then (if bs ! from = v then int from else indexOf bs v (Suc from))
      else - 1)"
  by pat_completeness auto
termination
  by (relation "measure (\<lambda>(bs, v, from). length bs - from)") auto

declare indexOf.simps [simp del]

section \<open>Errors\<close>

text \<open>
  \<open>BitOverflow\<close> is the \<open>Incident\<close> thrown by the bit-level operations, \<open>IncompleteStream\<close>
  the error of \<open>createIncompleteStreamError\<close>, \<open>RangeError\<close> what a \<open>DataView\<close> accessor
  throws outside its view, and \<open>TypeError\<close> what the fatal \<open>TextDecoder\<close> throws on bytes
  that are not UTF-8.
\<close>

datatype error = BitOverflow | IncompleteStream | RangeError | TypeError

section \<open>The cursor and the reader\<close>

record cursor =
  bytePos :: nat
  bitPos :: nat

text \<open>
  The reader's private fields: \<open>#bytes\<close>; \<open>#view\<close>, a \<open>DataView\<close> over the same bytes; and
  \<open>#byteEnd\<close>, assigned once, in the constructor, to \<open>bytes.length\<close>. No method reassigns
  \<open>#bytes\<close> or \<open>#byteEnd\<close>, so \<open>#byteEnd\<close> is read off the bytes.
\<close>

record ReadableStream = cursor +
  bytes :: "byte list"

definition byteEnd :: "ReadableStream \<Rightarrow> nat" where
  "byteEnd s = length (bytes s)"

definition ReadableStream_new :: "byte list \<Rightarrow> nat \<Rightarrow> nat \<Rightarrow> ReadableStream" where
  "ReadableStream_new bs byteOffset bitOffset =
     \<lparr>bytePos = 0, bitPos = bitOffset, bytes = bs\<rparr>"

definition align :: "ReadableStream \<Rightarrow> ReadableStream" where
  "align s = (if bitPos s \<noteq> 0 then s\<lparr>bitPos := 0, bytePos := bytePos s + 1\<rparr> else s)"

definition tailBytes :: "ReadableStream \<Rightarrow> byte list \<times> ReadableStream" where
  "tailBytes s =
     (let result = drop (bytePos s) (bytes s)
      in (result, s\<lparr>bytePos := byteEnd s, bitPos := 0\<rparr>))"

text \<open>
  \<open>new ReadableStream(this.tailBytes(), 0, this.bitPos)\<close>: the arguments are evaluated from
  left to right, so \<open>this.bitPos\<close> is read from the state that \<open>tailBytes\<close> leaves.
\<close>

definition tail :: "ReadableStream \<Rightarrow> ReadableStream \<times> ReadableStream" where
  "tail s =
     (let (result, s') = tailBytes s
      in (ReadableStream_new result 0 (bitPos s'), s'))"

definition available :: "ReadableStream \<Rightarrow> int" where
  "available s = int (byteEnd s) - int (bytePos s)"

definition takeBytes :: "nat \<Rightarrow> ReadableStream \<Rightarrow> byte list \<times> ReadableStream" where
  "takeBytes len s =
     (let result = subarray (bytes s) (bytePos s) (bytePos s + len)
      in (result, s\<lparr>bytePos := bytePos s + len, bitPos := 0\<rparr>))"

definition take_stream :: "nat \<Rightarrow> ReadableStream \<Rightarrow> ReadableStream \<times> ReadableStream" where
  "take_stream len s =
     (let (result, s') = takeBytes len s
      in (ReadableStream_new result 0 0, s'))"

definition skip :: "nat \<Rightarrow> ReadableStream \<Rightarrow> ReadableStream" where
  "skip sz s = s\<lparr>bytePos := bytePos s + sz\<rparr>"

subsection \<open>LEB128\<close>

text \<open>
  The loop of \<open>readUint32Leb128\<close>, from its counter \<open>i\<close> and the accumulated \<open>result\<close>.
  The byte is read with \<open>this.#bytes[this.bytePos++]\<close>, which is \<open>undefined\<close> past the end.
\<close>

function leb128_loop :: "nat \<Rightarrow> int \<Rightarrow> ReadableStream \<Rightarrow> int \<times> ReadableStream" where
  "leb128_loop i result s =
     (if i < 5 then
        (let nextByte = elem_int (elem (bytes s) (bytePos s));
             s' = s\<lparr>bytePos := bytePos s + 1\<rparr>;
             result' = (if i < 4 then result + js_shl (js_and nextByte 0x7f) (7 * int i)
                        else result + js_and nextByte 0x0f * 2 ^ 28)
         in if js_and nextByte (js_shl 1 7) = 0 then (result', s')
            else leb128_loop (i + 1) result' s')
      else (result, s))"
  by pat_completeness auto
termination
  by (relation "measure (\<lambda>(i, result, s). 5 - i)") auto

declare leb128_loop.simps [simp del]

definition readUint32Leb128 :: "ReadableStream \<Rightarrow> int \<times> ReadableStream" where
  "readUint32Leb128 s = leb128_loop 0 0 s"

subsection \<open>Bit-level reads\<close>

text \<open>
  The loop of \<open>readUintBits\<close>, from the remaining width \<open>n\<close> and the accumulated
  \<open>result\<close>. In the second branch \<open>bitPos + n \<ge> 8\<close>, so \<open>n - (8 - bitPos)\<close> is
  \<open>n + bitPos - 8\<close>. The byte is read with \<open>this.#bytes[this.bytePos]\<close>.
\<close>

function readUintBits_loop :: "nat \<Rightarrow> int \<Rightarrow> ReadableStream \<Rightarrow> int \<times> ReadableStream" where
  "readUintBits_loop n result s =
     (if n > 0 then
        (if bitPos s + n < 8 then
           (let endBitPos = bitPos s + n;
                shift = js_shl 1 (int endBitPos - int (bitPos s));
                cur = js_and (js_ushr (elem_int (elem (bytes s) (bytePos s))) (8 - int endBitPos))
                        (shift - 1)
            in readUintBits_loop 0 (result * shift + cur) (s\<lparr>bitPos := endBitPos\<rparr>))
         else
           (let shift = js_shl 1 (8 - int (bitPos s));
                cur = js_and (elem_int (elem (bytes s) (bytePos s))) (shift - 1)
            in readUintBits_loop (n + bitPos s - 8) (result * shift + cur)
                 (s\<lparr>bitPos := 0, bytePos := bytePos s + 1\<rparr>)))
      else (result, s))"
  by pat_completeness auto
termination
  by (relation "measure (\<lambda>(n, result, s). if 8 \<le> bitPos s then n + bitPos s - 7 else n)")
    auto

declare readUintBits_loop.simps [simp del]

definition readUintBits :: "nat \<Rightarrow> ReadableStream \<Rightarrow> error + int \<times> ReadableStream" where
  "readUintBits n s =
     (if n > 32 then Inl BitOverflow else Inr (readUintBits_loop n 0 s))"

definition readSintBits :: "nat \<Rightarrow> ReadableStream \<Rightarrow> error + int \<times> ReadableStream" where
  "readSintBits n s =
     (if n = 0 then Inr (0, s)
      else (case readUintBits n s of
              Inl e \<Rightarrow> Inl e
            | Inr (unsigned', s') \<Rightarrow>
                if unsigned' < 2 ^ (n - 1) then Inr (unsigned', s')
                else Inr (- (2 ^ n) + unsigned', s')))"

definition skipBits :: "nat \<Rightarrow> ReadableStream \<Rightarrow> error + ReadableStream" where
  "skipBits n s = (case readUintBits n s of Inl e \<Rightarrow> Inl e | Inr (r, s') \<Rightarrow> Inr s')"

definition readBoolBits :: "ReadableStream \<Rightarrow> error + bool \<times> ReadableStream" where
  "readBoolBits s = (case readUintBits 1 s of Inl e \<Rightarrow> Inl e | Inr (r, s') \<Rightarrow> Inr (r > 0, s'))"

definition readSint16Bits :: "nat \<Rightarrow> ReadableStream \<Rightarrow> error + int \<times> ReadableStream" where
  "readSint16Bits n s = readSintBits n s"

definition readSint32Bits :: "nat \<Rightarrow> ReadableStream \<Rightarrow> error + int \<times> ReadableStream" where
  "readSint32Bits n s = readSintBits n s"

definition readUint16Bits :: "nat \<Rightarrow> ReadableStream \<Rightarrow> error + int \<times> ReadableStream" where
  "readUint16Bits n s = readUintBits n s"

definition readUint32Bits :: "nat \<Rightarrow> ReadableStream \<Rightarrow> error + int \<times> ReadableStream" where
  "readUint32Bits n s = readUintBits n s"

subsection \<open>DataView accessors and floats\<close>

text \<open>
  A \<open>DataView\<close> accessor throws a \<open>RangeError\<close> unless the whole field lies inside the view.
  \<open>getUint32\<close> returns the number that the four bytes denote in the given byte order;
  \<open>setUint32\<close> stores the low 32 bits of a number. A 64-bit float is kept as its IEEE-754
  bit pattern: \<open>getFloat64\<close> reinterprets eight bytes bit for bit, so the value read is
  a function of that pattern alone.
\<close>

datatype Float64 = Float64 "64 word"

definition getUint32 :: "byte list \<Rightarrow> nat \<Rightarrow> bool \<Rightarrow> error + int" where
  "getUint32 view byteOffset littleEndian =
     (if byteOffset + 4 > length view then Inl RangeError
      else (let field = take 4 (drop byteOffset view)
            in Inr (horner_sum uint 256 (if littleEndian then field else rev field))))"

definition uint32_bytes :: "int \<Rightarrow> bool \<Rightarrow> byte list" where
  "uint32_bytes v littleEndian =
     (let le = map (\<lambda>i. word_of_int (v div 256 ^ i)) [0, 1, 2, 3]
      in if littleEndian then le else rev le)"

definition setUint32 :: "byte list \<Rightarrow> nat \<Rightarrow> int \<Rightarrow> bool \<Rightarrow> error + byte list" where
  "setUint32 view byteOffset v littleEndian =
     (if byteOffset + 4 > length view then Inl RangeError
      else Inr (take byteOffset view @ uint32_bytes v littleEndian @ drop (byteOffset + 4) view))"

definition getFloat64 :: "byte list \<Rightarrow> nat \<Rightarrow> bool \<Rightarrow> error + Float64" where
  "getFloat64 view byteOffset littleEndian =
     (if byteOffset + 8 > length view then Inl RangeError
      else (let field = take 8 (drop byteOffset view)
            in Inr (Float64 (word_of_int
                 (horner_sum uint 256 (if littleEndian then field else rev field))))))"

definition readFloat64LE :: "ReadableStream \<Rightarrow> error + Float64 \<times> ReadableStream" where
  "readFloat64LE s =
     (case getFloat64 (bytes s) (bytePos s) True of
        Inl e \<Rightarrow> Inl e
      | Inr result \<Rightarrow> Inr (result, s\<lparr>bytePos := bytePos s + 8\<rparr>))"

text \<open>
  \<open>readFloat64LE32\<close> goes through the module's 8-byte scratch buffer \<open>TMP_BUFFER\<close>, shared
  by all readers: it is passed in and returned.
\<close>

definition readFloat64LE32 ::
  "byte list \<Rightarrow> ReadableStream \<Rightarrow> error + Float64 \<times> byte list \<times> ReadableStream" where
  "readFloat64LE32 tmp s =
     (case getUint32 (bytes s) (bytePos s + 4) True of
        Inl e \<Rightarrow> Inl e
      | Inr hi \<Rightarrow>
     (case setUint32 tmp 0 hi True of
        Inl e \<Rightarrow> Inl e
      | Inr tmp1 \<Rightarrow>
     (case getUint32 (bytes s) (bytePos s) True of
        Inl e \<Rightarrow> Inl e
      | Inr lo \<Rightarrow>
     (case setUint32 tmp1 4 lo True of
        Inl e \<Rightarrow> Inl e
      | Inr tmp2 \<Rightarrow>
     (case getFloat64 tmp2 0 True of
        Inl e \<Rightarrow> Inl e
      | Inr result \<Rightarrow> Inr (result, tmp2, s\<lparr>bytePos := bytePos s + 8\<rparr>))))))"

subsection \<open>Half-precision floats\<close>

text \<open>
  The result of \<open>reinterpretUint16AsFloat16\<close> is a JavaScript number: a real, an infinity
  or \<open>NaN\<close>. Each finite result is a product of a sign, a power of two between \<open>2^-14\<close>
  and \<open>2^15\<close> and a multiple of \<open>1/1024\<close> below 2, so the double arithmetic of the source
  computes it without rounding; the sign of a zero is not kept.
\<close>

datatype number = Finite real | PosInfinity | NegInfinity | NaN

text \<open>\<open>sign * Infinity\<close> for an integer \<open>sign\<close>.\<close>

definition times_Infinity :: "int \<Rightarrow> number" where
  "times_Infinity sign =
     (if sign > 0 then PosInfinity else if sign < 0 then NegInfinity else NaN)"

definition reinterpretUint16AsFloat16 :: "int \<Rightarrow> number" where
  "reinterpretUint16AsFloat16 u16 =
     (let sign = (if js_and u16 (js_shl 1 15) \<noteq> 0 then - 1 else 1 :: int);
          exponent = js_ushr (js_and u16 0x7c00) 10;
          fraction = js_and u16 0x03ff
      in if exponent = 0
         then Finite (of_int sign * 2 powi (- 14) * (of_int fraction / 1024))
         else if exponent = 0x1f
         then (if fraction = 0 then times_Infinity sign else NaN)
         else Finite (of_int sign * 2 powi (exponent - 15) * (1 + of_int fraction / 1024)))"

subsection \<open>Strings\<close>

text \<open>
  \<open>UTF8_DECODER\<close> is the platform's \<open>TextDecoder\<close>, created fatal: it returns a string or
  throws a \<open>TypeError\<close>. It is a parameter here, \<open>decode\<close>, with \<open>None\<close> for the throw.
\<close>

definition readUtf8 ::
  "(byte list \<Rightarrow> 'str option) \<Rightarrow> nat \<Rightarrow> ReadableStream \<Rightarrow> error + 'str \<times> ReadableStream" where
  "readUtf8 decode byteLength s =
     (let endOfString = bytePos s + byteLength
      in if endOfString > length (bytes s) then Inl IncompleteStream
         else (let slice = subarray (bytes s) (bytePos s) endOfString
               in case decode slice of
                    None \<Rightarrow> Inl TypeError
                  | Some result \<Rightarrow> Inr (result, s\<lparr>bytePos := endOfString\<rparr>)))"

definition readNulUtf8 ::
  "(byte list \<Rightarrow> 'str option) \<Rightarrow> ReadableStream \<Rightarrow> error + 'str \<times> ReadableStream" where
  "readNulUtf8 decode s =
     (let endOfString = indexOf (bytes s) 0 (bytePos s)
      in if endOfString < 0 then Inl IncompleteStream
         else (let slice = subarray (bytes s) (bytePos s) (nat endOfString)
               in case decode slice of
                    None \<Rightarrow> Inl TypeError
                  | Some result \<Rightarrow> Inr (result, s\<lparr>bytePos := nat endOfString + 1\<rparr>)))"

subsection \<open>Equality of readers\<close>

text \<open>The \<open>for\<close> loop of \<open>equals\<close>, from its counter \<open>i\<close>.\<close>

function equals_loop :: "ReadableStream \<Rightarrow> ReadableStream \<Rightarrow> int \<Rightarrow> nat \<Rightarrow> bool" where
  "equals_loop left right leftLen i =
     (if int i < leftLen then
        (if elem (bytes left) (bytePos left + i) \<noteq> elem (bytes right) (bytePos right + i)
         then False
         else equals_loop left right leftLen (i + 1))
      else True)"
  by pat_completeness auto
termination
  by (relation "measure (\<lambda>(left, right, leftLen, i). nat (leftLen - int i))") auto

declare equals_loop.simps [simp del]

definition equals :: "ReadableStream \<Rightarrow> ReadableStream \<Rightarrow> bool" where
  "equals left right =
     (if bitPos left \<noteq> bitPos right then False
      else (let leftLen = int (byteEnd left) - int (bytePos left);
                rightLen = int (byteEnd right) - int (bytePos right)
            in if leftLen \<noteq> rightLen then False
               else if leftLen = 0 then True
               else if bitPos left \<noteq> 0 then
                 (let leftPartialByte = elem (bytes left) (bytePos left);
                      rightPartialByte = elem (bytes right) (bytePos right);
                      mask = js_shl 1 (8 - int (bitPos left)) - 1
                  in if js_and (elem_int leftPartialByte) mask
                          \<noteq> js_and (elem_int rightPartialByte) mask
                     then False
                     else equals_loop left right leftLen 1)
               else equals_loop left right leftLen 0))"

section \<open>The writer\<close>

record WritableStream = cursor +
  chunks :: "byte list list"
  bitsBuffer :: int

definition WritableStream_new :: WritableStream where
  "WritableStream_new = \<lparr>bytePos = 0, bitPos = 0, chunks = [], bitsBuffer = 0\<rparr>"

text \<open>A number stored into a \<open>Uint8Array\<close> or a \<open>Buffer\<close> is reduced modulo 256.\<close>

definition ToUint8 :: "int \<Rightarrow> byte" where
  "ToUint8 x = word_of_int x"

definition writeBytes :: "byte list \<Rightarrow> WritableStream \<Rightarrow> WritableStream" where
  "writeBytes v w = w\<lparr>chunks := chunks w @ [v], bytePos := bytePos w + length v\<rparr>"

definition writeUint8 :: "int \<Rightarrow> WritableStream \<Rightarrow> WritableStream" where
  "writeUint8 v w =
     w\<lparr>chunks := chunks w @ [[ToUint8 (js_and v 0xff)]], bytePos := bytePos w + 1\<rparr>"

subsection \<open>LEB128\<close>

text \<open>
  The loop of \<open>writeUint32Leb128\<close>. The value is a \<open>Uint32\<close>, a natural number:
  \<open>value % 0x80\<close> is its remainder and \<open>(value - nextByte) / 0x80\<close> is exact.
\<close>

function writeUint32Leb128_loop :: "nat \<Rightarrow> int list \<Rightarrow> int list" where
  "writeUint32Leb128_loop v chunk =
     (if v \<noteq> 0 \<or> length chunk = 0 then
        (let nextByte = v mod 0x80;
             v' = (v - nextByte) div 0x80;
             nextByte' = (if v' \<noteq> 0 then js_or (int nextByte) 0x80 else int nextByte)
         in writeUint32Leb128_loop v' (chunk @ [nextByte']))
      else chunk)"
  by pat_completeness auto
termination
  by (relation "measure (\<lambda>(v, chunk). 2 * v + (if chunk = [] then 1 else 0))") auto

declare writeUint32Leb128_loop.simps [simp del]

definition writeUint32Leb128 :: "nat \<Rightarrow> WritableStream \<Rightarrow> WritableStream" where
  "writeUint32Leb128 v w =
     (let chunk = writeUint32Leb128_loop v []
      in w\<lparr>chunks := chunks w @ [map ToUint8 chunk], bytePos := bytePos w + length chunk\<rparr>)"

subsection \<open>Finalization\<close>

text \<open>
  Modelled from the spec: \<open>concatBytes\<close> of \<open>src/lib/concat-bytes.ts\<close>, which is not
  among the sources. The spec has it concatenate the chunk sequence into one contiguous
  owned buffer.
\<close>

definition concatBytes :: "byte list list \<Rightarrow> byte list" where
  "concatBytes cs = concat cs"

definition getBytes :: "WritableStream \<Rightarrow> byte list \<times> WritableStream" where
  "getBytes w = (let bs = concatBytes (chunks w) in (bs, w\<lparr>chunks := [bs]\<rparr>))"

subsection \<open>Bit-level writes\<close>

text \<open>
  The loop of \<open>writeUintBits\<close>. The remaining width \<open>bits\<close> and \<open>consumedBits\<close> are
  integers: \<open>8 - bitPos\<close> is negative when \<open>bitPos\<close>, a public field, is above 8.
\<close>

function writeUintBits_loop :: "int \<Rightarrow> int \<Rightarrow> WritableStream \<Rightarrow> WritableStream" where
  "writeUintBits_loop bits v w =
     (if bits > 0 then
        (let availableBits = 8 - int (bitPos w);
             consumedBits = min availableBits bits;
             chunk = js_and (js_ushr v (bits - consumedBits)) (js_shl 1 consumedBits - 1);
             w1 = w\<lparr>bitsBuffer := js_or (bitsBuffer w) (js_shl chunk (availableBits - consumedBits))\<rparr>;
             w2 = w1\<lparr>bitPos := nat (int (bitPos w1) + consumedBits)\<rparr>;
             w3 = (if bitPos w2 = 8
                   then (writeUint8 (bitsBuffer w2) w2)\<lparr>bitsBuffer := 0, bitPos := 0\<rparr>
                   else w2)
         in writeUintBits_loop (bits - consumedBits) v w3)
      else w)"
  by pat_completeness auto
termination
  by (relation "measure (\<lambda>(bits, v, w).
        nat (if 8 \<le> bitPos w then bits + int (bitPos w) - 7 else bits))")
    (auto simp add: Let_def writeUint8_def min_def split: if_splits)

declare writeUintBits_loop.simps [simp del]

definition writeUintBits :: "nat \<Rightarrow> int \<Rightarrow> WritableStream \<Rightarrow> error + WritableStream" where
  "writeUintBits bits v w =
     (if bits > 32 then Inl BitOverflow else Inr (writeUintBits_loop (int bits) v w))"

definition writeSintBits :: "nat \<Rightarrow> int \<Rightarrow> WritableStream \<Rightarrow> error + WritableStream" where
  "writeSintBits bits v w =
     (if v < 0 then writeUintBits bits (2 ^ bits + v) w else writeUintBits bits v w)"

definition writeBoolBits :: "bool \<Rightarrow> WritableStream \<Rightarrow> error + WritableStream" where
  "writeBoolBits v w = writeUintBits 1 (if v then 1 else 0) w"

definition writeSint16Bits :: "nat \<Rightarrow> int \<Rightarrow> WritableStream \<Rightarrow> error + WritableStream" where
  "writeSint16Bits n v w = writeSintBits n v w"

definition writeSint32Bits :: "nat \<Rightarrow> int \<Rightarrow> WritableStream \<Rightarrow> error + WritableStream" where
  "writeSint32Bits n v w = writeSintBits n v w"

definition writeUint16Bits :: "nat \<Rightarrow> int \<Rightarrow> WritableStream \<Rightarrow> error + WritableStream" where
  "writeUint16Bits n v w = writeUintBits n v w"

definition writeUint32Bits :: "nat \<Rightarrow> int \<Rightarrow> WritableStream \<Rightarrow> error + WritableStream" where
  "writeUint32Bits n v w = writeUintBits n v w"

section \<open>Notions used to state the properties\<close>

text \<open>
  \<open>leb128_terminated k bs\<close>: reading at most \<open>k\<close> bytes of \<open>bs\<close> ends inside \<open>bs\<close>, on a
  byte with bit 7 clear or on the \<open>k\<close>-th byte.
\<close>

fun leb128_terminated :: "nat \<Rightarrow> byte list \<Rightarrow> bool" where
  "leb128_terminated 0 bs = True"
| "leb128_terminated (Suc k) [] = False"
| "leb128_terminated (Suc k) (b # bs) = (if bit b 7 then leb128_terminated k bs else True)"

text \<open>
  \<open>leb128_groups v\<close>: the groups of seven bits of \<open>v\<close>, least significant first, each but
  the last with bit 7 set.
\<close>

fun leb128_groups :: "nat \<Rightarrow> int list" where
  "leb128_groups v =
     (if v < 128 then [int v] else (int (v mod 128) + 128) # leb128_groups (v div 128))"

declare leb128_groups.simps [simp del]

text \<open>
  The bit stream of a buffer, as the bit-level reads see it: \<open>bit_at bs k\<close> is bit \<open>k\<close>
  counted from the first byte, most significant bit first, and 0 past the end (where the
  reader finds \<open>undefined\<close>); \<open>bits_value bs p n\<close> is the number that the \<open>n\<close> bits from
  position \<open>p\<close> denote, the first bit being the most significant.
\<close>

definition bit_at :: "byte list \<Rightarrow> nat \<Rightarrow> bool" where
  "bit_at bs k = (case elem bs (k div 8) of None \<Rightarrow> False | Some b \<Rightarrow> bit b (7 - k mod 8))"

fun bits_value :: "byte list \<Rightarrow> nat \<Rightarrow> nat \<Rightarrow> int" where
  "bits_value bs p 0 = 0"
| "bits_value bs p (Suc n) = 2 * bits_value bs p n + of_bool (bit_at bs (p + n))"

text \<open>
  Equality of readers in the spec's words: the same bit offset and the same remaining
  bytes, where under a bit offset the first remaining byte counts only in its low
  \<open>8 - bitPos\<close> bits.
\<close>

definition remaining :: "ReadableStream \<Rightarrow> byte list" where
  "remaining s = drop (bytePos s) (bytes s)"

definition same_remaining :: "ReadableStream \<Rightarrow> ReadableStream \<Rightarrow> bool" where
  "same_remaining left right =
     (bitPos left = bitPos right
      \<and> (if bitPos left = 0 then remaining left = remaining right
         else (case (remaining left, remaining right) of
                 ([], []) \<Rightarrow> True
               | (l # ls, r # rs) \<Rightarrow>
                   take_bit (8 - bitPos left) l = take_bit (8 - bitPos left) r \<and> ls = rs
               | _ \<Rightarrow> False)))"

section \<open>The 32-bit operators on small operands\<close>

lemma js_and_signed: "js_and a b = signed_take_bit 31 a AND signed_take_bit 31 b"
  by (simp add: js_and_def ToInt32_def signed_and_eq signed_of_int)

lemma js_and_small:
  "0 \<le> a \<Longrightarrow> a < 2 ^ 31 \<Longrightarrow> 0 \<le> b \<Longrightarrow> b < 2 ^ 31 \<Longrightarrow> js_and a b = a AND b"
  by (simp add: js_and_signed signed_take_bit_int_eq_self)

lemma js_and_mask:
  assumes "0 \<le> a" "a < 2 ^ 31" "n < 32"
  shows "js_and a (2 ^ n - 1) = a mod 2 ^ n"
proof -
  have "(2::int) ^ n \<le> 2 ^ 31" using assms(3) by (intro power_increasing) auto
  then have "(2::int) ^ n - 1 < 2 ^ 31" by simp
  then have "js_and a (2 ^ n - 1) = a AND (2 ^ n - 1)"
    using assms by (intro js_and_small) auto
  then show ?thesis
    by (simp add: take_bit_eq_mod flip: mask_eq_exp_minus_1 take_bit_eq_mask)
qed

lemma js_shl_signed: "js_shl a k = signed_take_bit 31 (push_bit (nat (k mod 32)) a)"
  by (simp add: js_shl_def ToInt32_def signed_of_int flip: of_int_push_bit)

lemma js_shl_small:
  assumes "0 \<le> a" "a * 2 ^ k < 2 ^ 31" "k < 32"
  shows "js_shl a (int k) = a * 2 ^ k"
proof -
  have "- (2 ^ 31) \<le> a * 2 ^ k" using assms(1) by (simp add: order_trans [of _ 0])
  then show ?thesis using assms
    by (simp add: js_shl_signed push_bit_eq_mult signed_take_bit_int_eq_self)
qed

lemma js_ushr_unsigned: "js_ushr a k = drop_bit (nat (k mod 32)) (take_bit 32 a)"
  by (simp add: js_ushr_def ToInt32_def unsigned_drop_bit_eq uint_word_of_int take_bit_eq_mod)

lemma js_ushr_small:
  "0 \<le> a \<Longrightarrow> a < 2 ^ 32 \<Longrightarrow> k < 32 \<Longrightarrow> js_ushr a (int k) = a div 2 ^ k"
  by (simp add: js_ushr_unsigned take_bit_int_eq_self drop_bit_eq_div)

lemma js_shl_1_7: "js_shl 1 7 = 128"
  by (simp add: js_shl_signed)

lemma uint_byte_less: "uint (b :: byte) < 256"
  using uint_lt2p [of b] by simp

lemma uint_byte_less31: "uint (b :: byte) < 2 ^ 31"
  by (rule order_less_trans [OF uint_byte_less]) simp

lemma byte_and_128: "js_and (uint (b :: byte)) 128 = 0 \<longleftrightarrow> \<not> bit b 7"
proof -
  have "js_and (uint b) 128 = uint b AND 128"
    by (rule js_and_small [OF uint_nonnegative uint_byte_less31]) simp_all
  also have "\<dots> = 0 \<longleftrightarrow> \<not> bit (uint b) 7"
    using and_exp_eq_0_iff_not_bit [of "uint b" 7] by simp
  finally show ?thesis by (simp add: bit_uint_iff)
qed

lemma js_and_0 [simp]: "js_and 0 b = 0"
  by (simp add: js_and_signed)

section \<open>Properties of the reader\<close>

subsection \<open>tail and tailBytes\<close>

text \<open>
  C10. For every reader state, also one with a bit offset, the reader that \<open>tail\<close> returns
  has \<open>bitPos = 0\<close>: \<open>tailBytes\<close> has reset the bit offset before the constructor's argument
  is read. After \<open>tail\<close> or \<open>tailBytes\<close> the original reader is at the end of its buffer with
  \<open>bitPos = 0\<close>.
\<close>

theorem tail_bitPos_reset:
  "bitPos (fst (tail s)) = 0
   \<and> bytePos (snd (tail s)) = byteEnd s \<and> bitPos (snd (tail s)) = 0
   \<and> bytePos (snd (tailBytes s)) = byteEnd s \<and> bitPos (snd (tailBytes s)) = 0
   \<and> bytes (fst (tail s)) = drop (bytePos s) (bytes s)
   \<and> fst (tailBytes s) = drop (bytePos s) (bytes s)"
  by (simp add: tail_def tailBytes_def ReadableStream_new_def Let_def)

theorem tail_bitPos_reset_witness:
  "bitPos (fst (tail \<lparr>bytePos = 1, bitPos = 3, bytes = [1, 2, 3]\<rparr>)) = 0
   \<and> bytePos (snd (tail \<lparr>bytePos = 1, bitPos = 3, bytes = [1, 2, 3]\<rparr>)) = 3
   \<and> bytes (fst (tail \<lparr>bytePos = 1, bitPos = 3, bytes = [1, 2, 3]\<rparr>)) = [2, 3]"
  using tail_bitPos_reset [of "\<lparr>bytePos = 1, bitPos = 3, bytes = [1, 2, 3]\<rparr>"]
  by (simp add: byteEnd_def)

subsection \<open>The cursor and the end of the buffer\<close>

lemma leb128_loop_bytes: "bytes (snd (leb128_loop i r s)) = bytes s"
proof (induction i r s rule: leb128_loop.induct)
  case (1 i result s)
  show ?case
    by (subst leb128_loop.simps) (simp add: Let_def "1.IH" del: One_nat_def)
qed

lemma leb128_loop_advance:
  "i < 5 \<Longrightarrow> bytePos s < bytePos (snd (leb128_loop i r s))
     \<and> bytePos (snd (leb128_loop i r s)) \<le> bytePos s + (5 - i)"
proof (induction i r s rule: leb128_loop.induct)
  case (1 i result s)
  show ?case
  proof (cases "i < 4")
    case True
    with "1.IH" [OF \<open>i < 5\<close> refl refl refl] show ?thesis
    by (subst (1 2) leb128_loop.simps) (auto simp add: Let_def)
  next
    case False
    with \<open>i < 5\<close> have "i = 4" by simp
    then show ?thesis
      by (simp add: leb128_loop.simps [of 4] leb128_loop.simps [of 5] Let_def)
  qed
qed

lemma leb128_loop_within:
  "i \<le> 5 \<Longrightarrow> bytePos s \<le> length (bytes s) \<Longrightarrow>
   bytePos (snd (leb128_loop i r s)) \<le> length (bytes s)
     \<longleftrightarrow> leb128_terminated (5 - i) (drop (bytePos s) (bytes s))"
proof (induction i r s rule: leb128_loop.induct)
  case (1 i result s)
  show ?case
  proof (cases "i < 5")
    case False
    with "1.prems" have "i = 5" by simp
    with "1.prems" show ?thesis by (simp add: leb128_loop.simps [of 5])
  next
    case i: True
    then obtain k where k: "5 - i = Suc k" "5 - (i + 1) = k" by (cases "5 - i") auto
    show ?thesis
    proof (cases "bytePos s < length (bytes s)")
      case False
      with "1.prems" i k show ?thesis
        by (simp add: leb128_loop.simps [of i] elem_def elem_int_def Let_def)
    next
      case True
      then have d: "drop (bytePos s) (bytes s) = bytes s ! bytePos s # drop (Suc (bytePos s)) (bytes s)"
        by (simp add: Cons_nth_drop_Suc)
      show ?thesis
      proof (cases "bit (bytes s ! bytePos s) 7")
        case False
        with True i k d show ?thesis
          by (simp add: leb128_loop.simps [of i] elem_def elem_int_def Let_def js_shl_1_7 byte_and_128)
      next
        case b: True
        with True i k d "1.IH" [OF i refl refl refl] show ?thesis
          by (auto simp add: leb128_loop.simps [of i] elem_def elem_int_def Let_def js_shl_1_7 byte_and_128)
      qed
    qed
  qed
qed

text \<open>
  C1 (as amended). \<open>skip(n)\<close> and \<open>takeBytes(n)\<close> never fail and add \<open>n\<close> to \<open>bytePos\<close>, so
  \<open>bytePos \<le> byteEnd\<close> holds after them exactly when \<open>bytePos + n \<le> byteEnd\<close> held before;
  \<open>takeBytes\<close> returns the bytes that exist in that range. \<open>readUint32Leb128\<close> never fails
  either: it advances \<open>bytePos\<close> by 1 to 5, and leaves \<open>bytePos \<le> byteEnd\<close> exactly when the
  encoding ends inside the buffer.
\<close>

theorem reader_cursor_bounds:
  "bytePos (skip n s) = bytePos s + n \<and> byteEnd (skip n s) = byteEnd s
   \<and> (bytePos (skip n s) \<le> byteEnd (skip n s) \<longleftrightarrow> bytePos s + n \<le> byteEnd s)
   \<and> bytePos (snd (takeBytes n s)) = bytePos s + n \<and> byteEnd (snd (takeBytes n s)) = byteEnd s
   \<and> (bytePos (snd (takeBytes n s)) \<le> byteEnd (snd (takeBytes n s))
        \<longleftrightarrow> bytePos s + n \<le> byteEnd s)
   \<and> fst (takeBytes n s) = take n (drop (bytePos s) (bytes s))
   \<and> bytePos s < bytePos (snd (readUint32Leb128 s))
   \<and> bytePos (snd (readUint32Leb128 s)) \<le> bytePos s + 5
   \<and> byteEnd (snd (readUint32Leb128 s)) = byteEnd s
   \<and> (bytePos (snd (readUint32Leb128 s)) \<le> byteEnd (snd (readUint32Leb128 s))
        \<longleftrightarrow> leb128_terminated 5 (drop (bytePos s) (bytes s)))"
proof -
  have skip: "bytePos (skip n s) = bytePos s + n \<and> byteEnd (skip n s) = byteEnd s"
    by (simp add: skip_def byteEnd_def)
  have tk: "bytePos (snd (takeBytes n s)) = bytePos s + n
      \<and> byteEnd (snd (takeBytes n s)) = byteEnd s
      \<and> fst (takeBytes n s) = take n (drop (bytePos s) (bytes s))"
    by (simp add: takeBytes_def subarray_def byteEnd_def Let_def drop_take)
  have adv: "bytePos s < bytePos (snd (readUint32Leb128 s))
      \<and> bytePos (snd (readUint32Leb128 s)) \<le> bytePos s + 5"
    using leb128_loop_advance [of 0 s 0] by (simp add: readUint32Leb128_def)
  have bs: "byteEnd (snd (readUint32Leb128 s)) = byteEnd s"
    by (simp add: readUint32Leb128_def byteEnd_def leb128_loop_bytes)
  have within: "bytePos (snd (readUint32Leb128 s)) \<le> byteEnd s
      \<longleftrightarrow> leb128_terminated 5 (drop (bytePos s) (bytes s))"
  proof (cases "bytePos s \<le> length (bytes s)")
    case True
    then show ?thesis
      using leb128_loop_within [of 0 s 0] by (simp add: readUint32Leb128_def byteEnd_def)
  next
    case False
    then show ?thesis using adv by (simp add: byteEnd_def numeral_eq_Suc)
  qed
  show ?thesis using skip tk adv bs within by simp
qed

theorem reader_cursor_bounds_witness:
  "bytePos (skip 2 (ReadableStream_new [1, 2, 3] 0 0)) = 2
   \<and> fst (takeBytes 2 (ReadableStream_new [1, 2, 3] 0 0)) = [1, 2]
   \<and> bytePos (snd (readUint32Leb128 (ReadableStream_new [0x80, 0x01, 3] 0 0))) \<le> 3"
  using reader_cursor_bounds [of 2 "ReadableStream_new [1, 2, 3] 0 0"]
    reader_cursor_bounds [of 0 "ReadableStream_new [0x80, 0x01, 3] 0 0"]
  by (simp add: ReadableStream_new_def byteEnd_def eval_nat_numeral)

text \<open>
  On an empty buffer \<open>skip(1)\<close> and \<open>takeBytes(1)\<close> succeed and leave \<open>bytePos = 1\<close>, above
  \<open>byteEnd = 0\<close>; on the single byte \<open>0x80\<close>, \<open>readUint32Leb128\<close> reads past the end and
  returns 0 with \<open>bytePos = 2\<close>.
\<close>

theorem reader_cursor_overrun:
  "byteEnd (skip 1 (ReadableStream_new [] 0 0)) < bytePos (skip 1 (ReadableStream_new [] 0 0))
   \<and> byteEnd (snd (takeBytes 1 (ReadableStream_new [] 0 0)))
       < bytePos (snd (takeBytes 1 (ReadableStream_new [] 0 0)))
   \<and> readUint32Leb128 (ReadableStream_new [0x80] 0 0)
       = (0, \<lparr>bytePos = 2, bitPos = 0, bytes = [0x80]\<rparr>)"
  by (simp add: skip_def takeBytes_def byteEnd_def ReadableStream_new_def readUint32Leb128_def
      leb128_loop.simps [of 0] leb128_loop.simps [of "Suc 0"] elem_def elem_int_def Let_def
      js_and_signed js_shl_signed)

subsection \<open>Widths above 32 bits\<close>

text \<open>
  C3. With a width above 32, every bit-level read and every bit-level write fails with
  \<open>BitOverflow\<close>; with a width of at most 32, each of them returns a result.
\<close>

theorem bit_width_overflow:
  "(32 < n \<longrightarrow>
      readUintBits n s = Inl BitOverflow \<and> readUint32Bits n s = Inl BitOverflow
      \<and> readSint32Bits n s = Inl BitOverflow \<and> skipBits n s = Inl BitOverflow
      \<and> readUint16Bits n s = Inl BitOverflow \<and> readSint16Bits n s = Inl BitOverflow
      \<and> writeUintBits n v w = Inl BitOverflow \<and> writeUint32Bits n v w = Inl BitOverflow
      \<and> writeSint32Bits n v w = Inl BitOverflow
      \<and> writeUint16Bits n v w = Inl BitOverflow \<and> writeSint16Bits n v w = Inl BitOverflow)
   \<and> (n \<le> 32 \<longrightarrow>
      \<not> isl (readUintBits n s) \<and> \<not> isl (readUint32Bits n s)
      \<and> \<not> isl (readSint32Bits n s) \<and> \<not> isl (skipBits n s)
      \<and> \<not> isl (readUint16Bits n s) \<and> \<not> isl (readSint16Bits n s)
      \<and> \<not> isl (writeUintBits n v w) \<and> \<not> isl (writeUint32Bits n v w)
      \<and> \<not> isl (writeSint32Bits n v w)
      \<and> \<not> isl (writeUint16Bits n v w) \<and> \<not> isl (writeSint16Bits n v w))"
  by (simp add: readUintBits_def readUint32Bits_def readSint32Bits_def readSintBits_def
      skipBits_def readUint16Bits_def readSint16Bits_def writeUintBits_def writeUint32Bits_def
      writeSint32Bits_def writeSintBits_def writeUint16Bits_def writeSint16Bits_def
      split: prod.splits)

theorem bit_width_overflow_witness:
  "readUintBits 33 (ReadableStream_new [1, 2, 3, 4, 5] 0 0) = Inl BitOverflow
   \<and> readSint32Bits 33 (ReadableStream_new [1, 2, 3, 4, 5] 0 0) = Inl BitOverflow
   \<and> writeUintBits 33 1 WritableStream_new = Inl BitOverflow
   \<and> writeSint32Bits 33 (- 1) WritableStream_new = Inl BitOverflow
   \<and> \<not> isl (readUintBits 32 (ReadableStream_new [1, 2, 3, 4, 5] 0 0))
   \<and> \<not> isl (readSint32Bits 32 (ReadableStream_new [1, 2, 3, 4, 5] 0 0))
   \<and> \<not> isl (writeUintBits 32 1 WritableStream_new)
   \<and> \<not> isl (writeSint32Bits 32 (- 1) WritableStream_new)"
  using bit_width_overflow [of 33 "ReadableStream_new [1, 2, 3, 4, 5] 0 0" 1 WritableStream_new]
    bit_width_overflow [of 33 "ReadableStream_new [1, 2, 3, 4, 5] 0 0" "- 1" WritableStream_new]
    bit_width_overflow [of 32 "ReadableStream_new [1, 2, 3, 4, 5] 0 0" 1 WritableStream_new]
    bit_width_overflow [of 32 "ReadableStream_new [1, 2, 3, 4, 5] 0 0" "- 1" WritableStream_new]
  by simp

subsection \<open>LEB128 round trip\<close>

lemma js_or_128:
  assumes "0 \<le> a" "a < 128"
  shows "js_or a 128 = a + 128"
proof -
  have "js_or a 128 = a OR 128"
    using assms
    by (simp add: js_or_def ToInt32_def signed_or_eq signed_of_int signed_take_bit_int_eq_self)
  moreover have "\<not> bit a 7"
    using assms by (simp add: bit_iff_odd)
  then have "a AND 128 = 0"
    using and_exp_eq_0_iff_not_bit [of a 7] by simp
  ultimately show ?thesis
    using disjunctive_add_eq_or [of a 128] by simp
qed

lemma write_loop_groups:
  "writeUint32Leb128_loop v chunk = chunk @ (if v = 0 \<and> chunk \<noteq> [] then [] else leb128_groups v)"
proof (induction v chunk rule: writeUint32Leb128_loop.induct)
  case (1 v chunk)
  show ?case
  proof (cases "v \<noteq> 0 \<or> length chunk = 0")
    case False
    then show ?thesis by (simp add: writeUint32Leb128_loop.simps [of 0 chunk])
  next
    case True
    have sub: "(v - v mod 128) div 128 = v div 128"
      by (metis minus_mod_eq_mult_div nonzero_mult_div_cancel_left numeral_neq_zero)
    have z: "v div 128 \<noteq> 0 \<longleftrightarrow> \<not> v < 128" by (simp add: div_eq_0_iff)
    show ?thesis
      using True "1.IH" [OF True refl refl refl]
      by (subst writeUint32Leb128_loop.simps, subst leb128_groups.simps)
        (auto simp add: Let_def sub z js_or_128 leb128_groups.simps [of 0])
  qed
qed

lemma byte_and_127: "js_and (uint (b :: byte)) 127 = uint b mod 128"
  using js_and_mask [OF uint_nonnegative uint_byte_less31, of 7 b] by simp

lemma byte_and_15: "js_and (uint (b :: byte)) 15 = uint b mod 16"
  using js_and_mask [OF uint_nonnegative uint_byte_less31, of 4 b] by simp

lemma byte_bit7: "bit (b :: byte) 7 \<longleftrightarrow> 128 \<le> uint b"
proof -
  have "bit (uint b) 7 \<longleftrightarrow> odd (uint b div 2 ^ 7)"
    by (rule bit_iff_odd)
  then have "bit b 7 \<longleftrightarrow> odd (uint b div 128)"
    by (simp add: bit_uint_iff)
  moreover have "uint b div 128 = (if 128 \<le> uint b then 1 else 0)"
    using uint_byte_less [of b] uint_nonnegative [of b] by (auto simp add: div_pos_pos_trivial) 
  ultimately show ?thesis by simp
qed

lemma shl_group:
  assumes "0 \<le> g" "g < 128" "i < 4"
  shows "js_shl g (7 * int i) = g * 2 ^ (7 * i)"
proof -
  have "(2::int) ^ (7 * i) \<le> 2 ^ 21" using assms(3) by (intro power_increasing) auto
  then have "g * 2 ^ (7 * i) \<le> 127 * 2 ^ 21"
    using assms by (intro mult_mono) auto
  then have "g * 2 ^ (7 * i) < 2 ^ 31" by simp
  then show ?thesis
    using js_shl_small [of g "7 * i"] assms by simp
qed

lemma leb128_loop_last:
  assumes "i < 5" "bytePos s < length (bytes s)" "uint (bytes s ! bytePos s) < 128"
  shows "leb128_loop i r s
     = (r + (if i < 4 then uint (bytes s ! bytePos s) * 2 ^ (7 * i)
             else uint (bytes s ! bytePos s) mod 16 * 2 ^ 28),
        s\<lparr>bytePos := bytePos s + 1\<rparr>)"
proof -
  have "\<not> bit (bytes s ! bytePos s) 7" using assms(3) by (simp add: byte_bit7)
  then show ?thesis
    using assms
    by (subst leb128_loop.simps)
      (simp add: Let_def elem_def elem_int_def js_shl_1_7 byte_and_128 byte_and_127
        byte_and_15 shl_group)
qed

lemma leb128_loop_more:
  assumes "i < 4" "bytePos s < length (bytes s)" "128 \<le> uint (bytes s ! bytePos s)"
  shows "leb128_loop i r s
     = leb128_loop (i + 1) (r + uint (bytes s ! bytePos s) mod 128 * 2 ^ (7 * i))
        (s\<lparr>bytePos := bytePos s + 1\<rparr>)"
proof -
  have "bit (bytes s ! bytePos s) 7" using assms(3) by (simp add: byte_bit7)
  then show ?thesis
    using assms
    by (subst leb128_loop.simps)
      (simp add: Let_def elem_def elem_int_def js_shl_1_7 byte_and_128 byte_and_127 shl_group)
qed

lemma uint_ToUint8: "0 \<le> g \<Longrightarrow> g < 256 \<Longrightarrow> uint (ToUint8 g) = g"
  by (simp add: ToUint8_def uint_word_of_int)

lemma drop_eq_ConsD:
  "drop n xs = y # ys \<Longrightarrow> n < length xs \<and> xs ! n = y \<and> drop (Suc n) xs = ys"
  by (metis Cons_nth_drop_Suc drop_eq_Nil list.distinct(1) list.inject not_le)

lemma leb128_read_groups:
  "i \<le> 4 \<Longrightarrow> int v < 2 ^ (32 - 7 * i) \<Longrightarrow>
   drop (bytePos s) (bytes s) = map ToUint8 (leb128_groups v) @ rest \<Longrightarrow>
   leb128_loop i r s
     = (r + int v * 2 ^ (7 * i), s\<lparr>bytePos := bytePos s + length (leb128_groups v)\<rparr>)"
proof (induction v arbitrary: i r s rule: leb128_groups.induct)
  case (1 v)
  show ?case
  proof (cases "v < 128")
    case True
    then have g: "leb128_groups v = [int v]" by (simp add: leb128_groups.simps [of v])
    from g "1.prems"(3) have "drop (bytePos s) (bytes s) = ToUint8 (int v) # rest" by simp
    from drop_eq_ConsD [OF this]
    have lt: "bytePos s < length (bytes s)" and el: "bytes s ! bytePos s = ToUint8 (int v)"
      by simp_all
    have u: "uint (bytes s ! bytePos s) = int v"
      unfolding el using True by (intro uint_ToUint8) simp_all
    have m: "i = 4 \<Longrightarrow> int v mod 16 = int v"
      using "1.prems"(2) by simp
    show ?thesis
      using leb128_loop_last [of i s r] "1.prems"(1) lt u True m
      by (auto simp add: g)
  next
    case False
    then have g: "leb128_groups v = (int (v mod 128) + 128) # leb128_groups (v div 128)"
      by (simp add: leb128_groups.simps [of v])
    have i: "i < 4"
    proof (rule ccontr)
      assume "\<not> i < 4"
      with "1.prems"(1) have "i = 4" by simp
      with "1.prems"(2) False show False by simp
    qed
    from g "1.prems"(3)
    have "drop (bytePos s) (bytes s)
        = ToUint8 (int (v mod 128) + 128) # (map ToUint8 (leb128_groups (v div 128)) @ rest)"
      by simp
    from drop_eq_ConsD [OF this]
    have lt: "bytePos s < length (bytes s)"
      and el: "bytes s ! bytePos s = ToUint8 (int (v mod 128) + 128)"
      and dr: "drop (Suc (bytePos s)) (bytes s) = map ToUint8 (leb128_groups (v div 128)) @ rest"
      by simp_all
    have u: "uint (bytes s ! bytePos s) = int (v mod 128) + 128"
      unfolding el by (intro uint_ToUint8) simp_all
    have p: "(2::int) ^ (32 - 7 * i) = 128 * 2 ^ (32 - 7 * (i + 1))"
    proof -
      have "32 - 7 * i = 7 + (32 - 7 * (i + 1))" using i by simp
      then have "(2::int) ^ (32 - 7 * i) = 2 ^ 7 * 2 ^ (32 - 7 * (i + 1))"
        by (simp only: power_add)
      then show ?thesis by simp
    qed
    have small: "int (v div 128) < 2 ^ (32 - 7 * (i + 1))"
      using "1.prems"(2) unfolding p by (simp add: zdiv_int)
    let ?s' = "s\<lparr>bytePos := bytePos s + 1\<rparr>"
    have step: "leb128_loop i r s = leb128_loop (i + 1) (r + int (v mod 128) * 2 ^ (7 * i)) ?s'"
      using leb128_loop_more [of i s r] i lt u by simp
    have "leb128_loop (i + 1) (r + int (v mod 128) * 2 ^ (7 * i)) ?s'
        = (r + int (v mod 128) * 2 ^ (7 * i) + int (v div 128) * 2 ^ (7 * (i + 1)),
           ?s'\<lparr>bytePos := bytePos ?s' + length (leb128_groups (v div 128))\<rparr>)"
      using i small dr by (intro "1.IH" [OF False]) simp_all
    moreover have "int (v mod 128) * 2 ^ (7 * i) + int (v div 128) * 2 ^ (7 * (i + 1))
        = int v * 2 ^ (7 * i)"
    proof -
      have "v = v div 128 * 128 + v mod 128"
        by simp
      then have "int v = int (v div 128 * 128 + v mod 128)"
        by (rule arg_cong)
      then have "int v = int (v div 128) * 128 + int (v mod 128)"
        by (simp only: of_nat_add of_nat_mult of_nat_numeral)
      then show ?thesis by (simp add: power_add algebra_simps)
    qed
    ultimately show ?thesis
      using step by (simp add: g)
  qed
qed

text \<open>
  C2. For every 32-bit unsigned value \<open>v\<close>, \<open>writeUint32Leb128\<close> appends one chunk, and
  \<open>readUint32Leb128\<close> on a reader positioned at that chunk, alone or inside a longer
  buffer, returns \<open>v\<close> and stops right behind it. \<open>writeUint32Leb128(4294967295)\<close> appends
  exactly the five bytes \<open>ff ff ff ff 0f\<close>.
\<close>

theorem leb128_round_trip:
  assumes "v < 2 ^ 32"
  shows "chunks (writeUint32Leb128 v w) = chunks w @ [last (chunks (writeUint32Leb128 v w))]
    \<and> bytePos (writeUint32Leb128 v w)
        = bytePos w + length (last (chunks (writeUint32Leb128 v w)))
    \<and> readUint32Leb128
          \<lparr>bytePos = length pre, bitPos = k,
           bytes = pre @ last (chunks (writeUint32Leb128 v w)) @ rest\<rparr>
        = (int v,
           \<lparr>bytePos = length pre + length (last (chunks (writeUint32Leb128 v w))), bitPos = k,
            bytes = pre @ last (chunks (writeUint32Leb128 v w)) @ rest\<rparr>)
    \<and> readUint32Leb128 (ReadableStream_new (last (chunks (writeUint32Leb128 v w))) 0 0)
        = (int v,
           \<lparr>bytePos = length (last (chunks (writeUint32Leb128 v w))), bitPos = 0,
            bytes = last (chunks (writeUint32Leb128 v w))\<rparr>)
    \<and> last (chunks (writeUint32Leb128 4294967295 w)) = [0xff, 0xff, 0xff, 0xff, 0x0f]"
proof -
  have w: "writeUint32Leb128 u w
      = w\<lparr>chunks := chunks w @ [map ToUint8 (leb128_groups u)],
           bytePos := bytePos w + length (leb128_groups u)\<rparr>" for u
    by (simp add: writeUint32Leb128_def write_loop_groups Let_def)
  have small: "int v < 2 ^ (32 - 7 * 0)" using assms by (simp flip: of_nat_less_iff)
  have rd: "readUint32Leb128
        \<lparr>bytePos = length p, bitPos = j, bytes = p @ map ToUint8 (leb128_groups v) @ r\<rparr>
      = (int v, \<lparr>bytePos = length p + length (leb128_groups v), bitPos = j,
                 bytes = p @ map ToUint8 (leb128_groups v) @ r\<rparr>)" for p j r
    using leb128_read_groups [OF _ small, where rest = r and r = 0
        and s = "\<lparr>bytePos = length p, bitPos = j, bytes = p @ map ToUint8 (leb128_groups v) @ r\<rparr>"]
    by (simp add: readUint32Leb128_def)
  have g: "leb128_groups 4294967295 = [255, 255, 255, 255, 15]"
    by (simp add: leb128_groups.simps [of 4294967295] leb128_groups.simps [of 33554431]
        leb128_groups.simps [of 262143] leb128_groups.simps [of 2047] leb128_groups.simps [of 15])
  show ?thesis
    using rd [of pre k rest] rd [of "[]" 0 "[]"]
    by (simp add: w g ToUint8_def ReadableStream_new_def)
qed

theorem leb128_round_trip_witness:
  "readUint32Leb128 (ReadableStream_new (last (chunks (writeUint32Leb128 16384 WritableStream_new))) 0 0)
     = (16384, \<lparr>bytePos = 3, bitPos = 0, bytes = [0x80, 0x80, 0x01]\<rparr>)
   \<and> last (chunks (writeUint32Leb128 16384 WritableStream_new)) = [0x80, 0x80, 0x01]"
proof -
  have "(16384 :: nat) < 2 ^ 32" by simp
  from leb128_round_trip [OF this, of WritableStream_new "[]" 0 "[]"]
  show ?thesis
    by (simp add: writeUint32Leb128_def WritableStream_new_def Let_def ToUint8_def
        writeUint32Leb128_loop.simps [of 16384] writeUint32Leb128_loop.simps [of 128]
        writeUint32Leb128_loop.simps [of "Suc 0"] writeUint32Leb128_loop.simps [of 0]
        js_or_def ToInt32_def)
qed

subsection \<open>Signed bit fields\<close>

lemma bits_value_append:
  "bits_value bs p (m + k) = bits_value bs p m * 2 ^ k + bits_value bs (p + m) k"
proof (induction k)
  case 0
  show ?case by simp
next
  case (Suc k)
  have "bits_value bs p (m + Suc k) = 2 * bits_value bs p (m + k) + of_bool (bit_at bs (p + (m + k)))"
    by simp
  also have "\<dots> = 2 * (bits_value bs p m * 2 ^ k + bits_value bs (p + m) k)
      + of_bool (bit_at bs (p + m + k))"
    by (simp only: Suc add.assoc)
  finally show ?case by (simp add: algebra_simps)
qed

lemma bits_value_bounds: "0 \<le> bits_value bs p n \<and> bits_value bs p n < 2 ^ n"
proof (induction n)
  case 0
  show ?case by simp
next
  case (Suc n)
  then show ?case by (cases "bit_at bs (p + n)") simp_all
qed

lemma elem_int_bounds: "0 \<le> elem_int x" "elem_int x < 256" "elem_int x < 2 ^ 31" "elem_int x < 2 ^ 32"
proof -
  show "0 \<le> elem_int x" by (simp add: elem_int_def split: option.splits)
  show a: "elem_int x < 256" by (simp add: elem_int_def uint_byte_less split: option.splits)
  show "elem_int x < 2 ^ 31" by (rule order_less_trans [OF a]) simp
  show "elem_int x < 2 ^ 32" by (rule order_less_trans [OF a]) simp
qed

lemma bit_at_div:
  assumes "t < 8"
  shows "of_bool (bit_at bs (8 * q + t)) = elem_int (elem bs q) div 2 ^ (7 - t) mod 2"
proof -
  have "(8 * q + t) div 8 = q" "(8 * q + t) mod 8 = t" using assms by simp_all
  moreover have "(of_bool (bit b n) :: int) = uint b div 2 ^ n mod 2" for b :: byte and n
  proof -
    have "bit (uint b) n \<longleftrightarrow> odd (uint b div 2 ^ n)" by (rule bit_iff_odd)
    then have "bit b n \<longleftrightarrow> odd (uint b div 2 ^ n)"
      using bit_imp_le_length [of b n] by (auto simp add: bit_uint_iff)
    then show ?thesis by (cases "bit b n") (simp_all add: odd_iff_mod_2_eq_one)
  qed
  ultimately show ?thesis
    by (cases "elem bs q") (simp_all only: bit_at_def elem_int_def option.case, simp)
qed

lemma bits_value_chunk:
  "t + m \<le> 8 \<Longrightarrow>
   bits_value bs (8 * q + t) m = elem_int (elem bs q) div 2 ^ (8 - t - m) mod 2 ^ m"
proof (induction m)
  case 0
  then show ?case by simp
next
  case (Suc m)
  define x where "x = elem_int (elem bs q)"
  define y where "y = x div 2 ^ (7 - t - m)"
  have e: "8 - t - m = Suc (7 - t - m)" using Suc.prems by simp
  have "x div 2 ^ (8 - t - m) = y div 2"
    unfolding e y_def using zdiv_zmult2_eq [of 2 x "2 ^ (7 - t - m)"]
    by (simp add: mult.commute)
  moreover have "of_bool (bit_at bs (8 * q + t + m)) = y mod 2"
    using bit_at_div [of "t + m" bs q] Suc.prems by (simp add: x_def y_def add.assoc)
  moreover have "y mod 2 ^ Suc m = 2 * (y div 2 mod 2 ^ m) + y mod 2"
    using zmod_zmult2_eq [of "2 ^ m" y 2] by simp
  ultimately show ?case
    using Suc by (simp add: x_def y_def)
qed

lemma readUintBits_loop_bits:
  "bitPos s < 8 \<Longrightarrow>
   readUintBits_loop n r s
     = (r * 2 ^ n + bits_value (bytes s) (8 * bytePos s + bitPos s) n,
        s\<lparr>bytePos := (8 * bytePos s + bitPos s + n) div 8,
          bitPos := (8 * bytePos s + bitPos s + n) mod 8\<rparr>)"
proof (induction n r s rule: readUintBits_loop.induct)
  case (1 n result s)
  define x where "x = elem_int (elem (bytes s) (bytePos s))"
  have xb: "0 \<le> x" "x < 2 ^ 31" "x < 2 ^ 32"
    unfolding x_def by (rule elem_int_bounds)+
  show ?case
  proof (cases "n = 0")
    case True
    with "1.prems" show ?thesis
      by (simp add: readUintBits_loop.simps [of 0])
  next
    case n: False
    show ?thesis
    proof (cases "bitPos s + n < 8")
      case True
      have sh: "js_shl 1 (int n) = 2 ^ n"
      proof -
        have "(2::int) ^ n \<le> 2 ^ 8" using True by (intro power_increasing) auto
        then have "1 * (2::int) ^ n < 2 ^ 31" by simp
        then have "js_shl 1 (int n) = 1 * 2 ^ n" using True by (intro js_shl_small) simp_all
        then show ?thesis by simp
      qed
      have us: "js_ushr x (8 - (int (bitPos s) + int n)) = x div 2 ^ (8 - (bitPos s + n))"
      proof -
        have "js_ushr x (int (8 - (bitPos s + n))) = x div 2 ^ (8 - (bitPos s + n))"
          using xb by (intro js_ushr_small) simp_all
        moreover have "int (8 - (bitPos s + n)) = 8 - (int (bitPos s) + int n)"
          using True by simp
        ultimately show ?thesis by simp
      qed
      have "x div 2 ^ (8 - (bitPos s + n)) \<le> x div 1"
        using xb(1) by (intro zdiv_mono2) simp_all
      then have "x div 2 ^ (8 - (bitPos s + n)) \<le> x"
        by simp
      then have ub: "0 \<le> x div 2 ^ (8 - (bitPos s + n))" "x div 2 ^ (8 - (bitPos s + n)) < 2 ^ 31"
        using xb by (simp_all add: pos_imp_zdiv_nonneg_iff)
      have "8 - bitPos s - n = 8 - (bitPos s + n)" by simp
      then have cur: "js_and (x div 2 ^ (8 - (bitPos s + n))) (2 ^ n - 1)
          = bits_value (bytes s) (8 * bytePos s + bitPos s) n"
        using js_and_mask [OF ub, of n] True bits_value_chunk [of "bitPos s" n "bytes s" "bytePos s"]
        by (simp add: x_def)
      have pos: "(8 * bytePos s + bitPos s + n) div 8 = bytePos s"
        "(8 * bytePos s + bitPos s + n) mod 8 = bitPos s + n"
        using True by (simp_all add: add.assoc)
      show ?thesis
        using n True
        by (subst readUintBits_loop.simps)
          (simp add: Let_def sh us cur pos readUintBits_loop.simps [of 0] flip: x_def)
    next
      case False
      define m where "m = 8 - bitPos s"
      define n' where "n' = n + bitPos s - 8"
      define s' where "s' = s\<lparr>bitPos := 0, bytePos := bytePos s + 1\<rparr>"
      have mn: "n = m + n'" "bitPos s + m = 8" "0 < m" "m \<le> 8"
        using False "1.prems" by (simp_all add: m_def n'_def)
      have sh: "js_shl 1 (8 - int (bitPos s)) = 2 ^ m"
      proof -
        have "(2::int) ^ m \<le> 2 ^ 8" using mn by (intro power_increasing) auto
        then have "1 * (2::int) ^ m < 2 ^ 31" by simp
        then have "js_shl 1 (int m) = 1 * 2 ^ m" using mn by (intro js_shl_small) simp_all
        moreover have "int m = 8 - int (bitPos s)" using "1.prems" by (simp add: m_def)
        ultimately show ?thesis by simp
      qed
      have cur: "js_and x (2 ^ m - 1) = bits_value (bytes s) (8 * bytePos s + bitPos s) m"
        using js_and_mask [OF xb(1,2), of m] mn
          bits_value_chunk [of "bitPos s" m "bytes s" "bytePos s"]
        by (simp add: x_def)
      have ih: "readUintBits_loop n' (result * 2 ^ m + js_and x (2 ^ m - 1)) s'
          = ((result * 2 ^ m + js_and x (2 ^ m - 1)) * 2 ^ n'
               + bits_value (bytes s') (8 * bytePos s' + bitPos s') n',
             s'\<lparr>bytePos := (8 * bytePos s' + bitPos s' + n') div 8,
                bitPos := (8 * bytePos s' + bitPos s' + n') mod 8\<rparr>)"
        using "1.IH"(2) [OF _ False refl refl] n
        by (simp add: sh s'_def n'_def flip: x_def)
      have p: "8 * bytePos s' + bitPos s' = 8 * bytePos s + bitPos s + m"
        using mn by (simp add: s'_def)
      have v: "(result * 2 ^ m + bits_value (bytes s) (8 * bytePos s + bitPos s) m) * 2 ^ n'
            + bits_value (bytes s) (8 * bytePos s + bitPos s + m) n'
          = result * 2 ^ n + bits_value (bytes s) (8 * bytePos s + bitPos s) n"
        unfolding mn(1) bits_value_append by (simp add: power_add algebra_simps)
      have step: "readUintBits_loop n result s
          = readUintBits_loop n' (result * 2 ^ m + js_and x (2 ^ m - 1)) s'"
        using n False
        by (subst readUintBits_loop.simps) (simp add: Let_def sh s'_def n'_def flip: x_def)
      have val: "(result * 2 ^ m + js_and x (2 ^ m - 1)) * 2 ^ n'
            + bits_value (bytes s') (8 * bytePos s' + bitPos s') n'
          = result * 2 ^ n + bits_value (bytes s) (8 * bytePos s + bitPos s) n"
        unfolding p cur using v by (simp add: s'_def)
      have q: "8 * bytePos s' + bitPos s' + n' = 8 * bytePos s + bitPos s + n"
        unfolding p mn(1) by simp
      have st: "s'\<lparr>bytePos := (8 * bytePos s' + bitPos s' + n') div 8,
                 bitPos := (8 * bytePos s' + bitPos s' + n') mod 8\<rparr>
          = s\<lparr>bytePos := (8 * bytePos s + bitPos s + n) div 8,
               bitPos := (8 * bytePos s + bitPos s + n) mod 8\<rparr>"
        unfolding q by (simp add: s'_def)
      show ?thesis
        by (simp only: step ih val st)
    qed
  qed
qed

text \<open>
  C6. For every \<open>n \<le> 32\<close> and every reader with a bit offset below 8, \<open>readUintBits(n)\<close>
  returns the number \<open>u\<close> that the next \<open>n\<close> bits of the stream denote, with
  \<open>0 \<le> u < 2^n\<close>, and moves the cursor \<open>n\<close> bits; \<open>readSintBits(n)\<close> returns \<open>u - 2^n\<close> when
  \<open>u \<ge> 2^(n-1)\<close> and \<open>u\<close> otherwise. \<open>readSintBits(0)\<close> returns 0 and leaves every reader
  as it was. In every reader state, whatever its bit offset, the result of \<open>readSintBits(n)\<close>
  is that reinterpretation of what \<open>readUintBits(n)\<close> returns there.
\<close>

theorem readSintBits_twos_complement:
  assumes "n \<le> 32" "bitPos s < 8"
  defines "u \<equiv> bits_value (bytes s) (8 * bytePos s + bitPos s) n"
    and "s' \<equiv> s\<lparr>bytePos := (8 * bytePos s + bitPos s + n) div 8,
                  bitPos := (8 * bytePos s + bitPos s + n) mod 8\<rparr>"
  shows "readUintBits n s = Inr (u, s')
    \<and> readSintBits n s = Inr (if 2 ^ (n - 1) \<le> u then u - 2 ^ n else u, s')
    \<and> 0 \<le> u \<and> u < 2 ^ n
    \<and> readSintBits 0 s0 = Inr (0, s0)
    \<and> readSintBits n s0 =
        (case readUintBits n s0 of
           Inl e \<Rightarrow> Inl e
         | Inr (u0, s1) \<Rightarrow> Inr (if 2 ^ (n - 1) \<le> u0 then u0 - 2 ^ n else u0, s1))"
proof -
  have ru: "readUintBits n s = Inr (u, s')"
    using assms(1) readUintBits_loop_bits [OF assms(2), of n 0]
    by (simp add: readUintBits_def u_def s'_def)
  have b: "0 \<le> u" "u < 2 ^ n"
    using bits_value_bounds [of "bytes s" "8 * bytePos s + bitPos s" n] by (simp_all add: u_def)
  have z: "readSintBits 0 t = Inr (0, t)" for t
    by (simp add: readSintBits_def)
  have "readSintBits n s = Inr (if 2 ^ (n - 1) \<le> u then u - 2 ^ n else u, s')"
  proof (cases "n = 0")
    case True
    then have "u = 0" "s' = s" using assms(2) by (simp_all add: u_def s'_def)
    with True show ?thesis by (simp add: z)
  next
    case False
    then show ?thesis by (simp add: readSintBits_def ru not_le)
  qed
  moreover have "readSintBits n s0 =
      (case readUintBits n s0 of
         Inl e \<Rightarrow> Inl e
       | Inr (u0, s1) \<Rightarrow> Inr (if 2 ^ (n - 1) \<le> u0 then u0 - 2 ^ n else u0, s1))"
  proof (cases "n = 0")
    case True
    then show ?thesis
      by (simp add: readSintBits_def readUintBits_def readUintBits_loop.simps [of 0])
  next
    case False
    then show ?thesis
      by (simp add: readSintBits_def not_le split: sum.splits prod.splits)
  qed
  ultimately show ?thesis using ru b z by simp
qed

theorem readSintBits_twos_complement_witness:
  "readSintBits 3 \<lparr>bytePos = 0, bitPos = 6, bytes = [0x03, 0x80]\<rparr>
     = Inr (- 1, \<lparr>bytePos = 1, bitPos = 1, bytes = [0x03, 0x80]\<rparr>)
   \<and> readUintBits 3 \<lparr>bytePos = 0, bitPos = 6, bytes = [0x03, 0x80]\<rparr>
     = Inr (7, \<lparr>bytePos = 1, bitPos = 1, bytes = [0x03, 0x80]\<rparr>)"
proof -
  have v: "bits_value [0x03, 0x80] 6 3 = 7"
    by (simp add: numeral_3_eq_3 bit_at_def elem_def)
  have "(3::nat) \<le> 32" by simp
  moreover have "bitPos \<lparr>bytePos = 0, bitPos = 6, bytes = [0x03, 0x80 :: byte]\<rparr> < 8" by simp
  ultimately show ?thesis
    using readSintBits_twos_complement [of 3 "\<lparr>bytePos = 0, bitPos = 6, bytes = [0x03, 0x80]\<rparr>"]
    by (simp add: v)
qed

subsection \<open>The word-swapped 64-bit float\<close>

lemma byte_div_256: "(uint (a :: byte) + 256 * y) div 256 = y"
  using uint_byte_less [of a] uint_nonnegative [of a] by (simp add: div_pos_pos_trivial)

lemma byte_of_int_256: "(word_of_int (uint (a :: byte) + 256 * y) :: byte) = a"
proof -
  have "(word_of_int (uint a + 256 * y) :: byte) = word_of_int (uint a)"
    by (simp only: word_of_int_eq_iff take_bit_eq_mod) simp
  then show ?thesis by simp
qed

lemma uint32_bytes_le:
  "uint32_bytes (horner_sum uint 256 [a, b, c, d :: byte]) True = [a, b, c, d]"
proof -
  define x3 where "x3 = uint d"
  define x2 where "x2 = uint c + 256 * x3"
  define x1 where "x1 = uint b + 256 * x2"
  define x0 where "x0 = uint a + 256 * x1"
  have h: "horner_sum uint 256 [a, b, c, d] = x0"
    by (simp add: x0_def x1_def x2_def x3_def)
  have d1: "x0 div 256 = x1" by (simp add: x0_def byte_div_256)
  have d2: "x0 div 256 ^ 2 = x2"
    using zdiv_zmult2_eq [of 256 x0 256] by (simp add: d1 x1_def byte_div_256)
  have d3: "x0 div 256 ^ 3 = x3"
    using zdiv_zmult2_eq [of 256 x0 65536] d2 by (simp add: x2_def byte_div_256)
  have w0: "(word_of_int x0 :: byte) = a" unfolding x0_def by (rule byte_of_int_256)
  have w1: "(word_of_int x1 :: byte) = b" unfolding x1_def by (rule byte_of_int_256)
  have w2: "(word_of_int x2 :: byte) = c" unfolding x2_def by (rule byte_of_int_256)
  have w3: "(word_of_int x3 :: byte) = d" unfolding x3_def by simp
  show ?thesis
    unfolding h uint32_bytes_def Let_def
    using d1 d2 d3 w0 w1 w2 w3 by simp
qed

text \<open>
  C4. For every eight bytes \<open>a \<dots> h\<close>, at any position of a buffer, \<open>readFloat64LE32\<close>
  returns the float that \<open>readFloat64LE\<close> returns on the word-swapped bytes
  \<open>e f g h a b c d\<close>, and both advance \<open>bytePos\<close> by 8. The scratch buffer's previous
  content \<open>ta \<dots> th\<close> does not matter.
\<close>

theorem readFloat64LE32_word_swap:
  "readFloat64LE32 [ta, tb, tc, td, te, tf, tg, th]
       \<lparr>bytePos = length pre, bitPos = k, bytes = pre @ [a, b, c, d, e, f, g, h] @ post\<rparr>
     = Inr (Float64 (word_of_int (horner_sum uint 256 [e, f, g, h, a, b, c, d])),
            [e, f, g, h, a, b, c, d],
            \<lparr>bytePos = length pre + 8, bitPos = k,
             bytes = pre @ [a, b, c, d, e, f, g, h] @ post\<rparr>)
   \<and> readFloat64LE
       \<lparr>bytePos = length pre, bitPos = k, bytes = pre @ [e, f, g, h, a, b, c, d] @ post\<rparr>
     = Inr (Float64 (word_of_int (horner_sum uint 256 [e, f, g, h, a, b, c, d])),
            \<lparr>bytePos = length pre + 8, bitPos = k,
             bytes = pre @ [e, f, g, h, a, b, c, d] @ post\<rparr>)"
proof -
  have hi: "getUint32 (pre @ a # b # c # d # e # f # g # h # post) (length pre + 4) True
      = Inr (horner_sum uint 256 [e, f, g, h])"
    by (simp add: getUint32_def Let_def)
  have lo: "getUint32 (pre @ a # b # c # d # e # f # g # h # post) (length pre) True
      = Inr (horner_sum uint 256 [a, b, c, d])"
    by (simp add: getUint32_def Let_def)
  have s1: "setUint32 [ta, tb, tc, td, te, tf, tg, th] 0 (horner_sum uint 256 [e, f, g, h]) True
      = Inr [e, f, g, h, te, tf, tg, th]"
    unfolding setUint32_def uint32_bytes_le by simp
  have s2: "setUint32 [e, f, g, h, te, tf, tg, th] 4 (horner_sum uint 256 [a, b, c, d]) True
      = Inr [e, f, g, h, a, b, c, d]"
    unfolding setUint32_def uint32_bytes_le by simp
  have f: "getFloat64 [e, f, g, h, a, b, c, d] 0 True
      = Inr (Float64 (word_of_int (horner_sum uint 256 [e, f, g, h, a, b, c, d])))"
    by (simp add: getFloat64_def)
  have f2: "getFloat64 (pre @ e # f # g # h # a # b # c # d # post) (length pre) True
      = Inr (Float64 (word_of_int (horner_sum uint 256 [e, f, g, h, a, b, c, d])))"
    by (simp add: getFloat64_def)
  have l32: "readFloat64LE32 [ta, tb, tc, td, te, tf, tg, th]
       \<lparr>bytePos = length pre, bitPos = k, bytes = pre @ a # b # c # d # e # f # g # h # post\<rparr>
     = Inr (Float64 (word_of_int (horner_sum uint 256 [e, f, g, h, a, b, c, d])),
            [e, f, g, h, a, b, c, d],
            \<lparr>bytePos = length pre + 8, bitPos = k,
             bytes = pre @ a # b # c # d # e # f # g # h # post\<rparr>)"
    unfolding readFloat64LE32_def by (simp add: hi lo s1 s2 f del: horner_sum_simps)
  have l: "readFloat64LE
       \<lparr>bytePos = length pre, bitPos = k, bytes = pre @ e # f # g # h # a # b # c # d # post\<rparr>
     = Inr (Float64 (word_of_int (horner_sum uint 256 [e, f, g, h, a, b, c, d])),
            \<lparr>bytePos = length pre + 8, bitPos = k,
             bytes = pre @ e # f # g # h # a # b # c # d # post\<rparr>)"
    unfolding readFloat64LE_def by (simp add: f2 del: horner_sum_simps)
  show ?thesis
    using l32 l by simp
qed


text \<open>The double 1.0, \<open>0x3FF0000000000000\<close>, stored with its words swapped.\<close>

theorem readFloat64LE32_word_swap_witness:
  "readFloat64LE32 [0, 0, 0, 0, 0, 0, 0, 0]
       \<lparr>bytePos = 0, bitPos = 0, bytes = [0, 0, 0xf0, 0x3f, 0, 0, 0, 0]\<rparr>
     = Inr (Float64 0x3FF0000000000000, [0, 0, 0, 0, 0, 0, 0xf0, 0x3f],
            \<lparr>bytePos = 8, bitPos = 0, bytes = [0, 0, 0xf0, 0x3f, 0, 0, 0, 0]\<rparr>)
   \<and> readFloat64LE \<lparr>bytePos = 0, bitPos = 0, bytes = [0, 0, 0, 0, 0, 0, 0xf0, 0x3f]\<rparr>
     = Inr (Float64 0x3FF0000000000000,
            \<lparr>bytePos = 8, bitPos = 0, bytes = [0, 0, 0, 0, 0, 0, 0xf0, 0x3f]\<rparr>)"
  using readFloat64LE32_word_swap [of 0 0 0 0 0 0 0 0 "[]" 0 0 0 "0xf0" "0x3f" 0 0 0 0 "[]"]
  by simp

subsection \<open>Half-precision decoding\<close>

lemma uint16_less31: "uint (u :: 16 word) < 2 ^ 31"
proof -
  have "uint u < 2 ^ 16" using uint_lt2p [of u] by simp
  then show ?thesis by (rule order_less_trans) simp
qed

lemma half_sign_bit: "js_and (uint (u :: 16 word)) (js_shl 1 15) \<noteq> 0 \<longleftrightarrow> 32768 \<le> uint u"
proof -
  have "js_shl 1 15 = 32768" by (simp add: js_shl_signed)
  moreover have "js_and (uint u) 32768 = uint u AND 32768"
    by (rule js_and_small [OF uint_nonnegative uint16_less31]) simp_all
  moreover have "uint u AND 32768 = 0 \<longleftrightarrow> \<not> bit (uint u) 15"
    using and_exp_eq_0_iff_not_bit [of "uint u" 15] by simp
  moreover have "bit (uint u) 15 \<longleftrightarrow> odd (uint u div 2 ^ 15)"
    by (rule bit_iff_odd)
  moreover have "uint u div 32768 = (if 32768 \<le> uint u then 1 else 0)"
    using uint_lt2p [of u] uint_nonnegative [of u] by (auto simp add: div_pos_pos_trivial)
  ultimately show ?thesis by simp
qed

lemma half_exponent: "js_ushr (js_and (uint (u :: 16 word)) 0x7c00) 10 = uint u div 1024 mod 32"
proof -
  have a: "js_and (uint u) 0x7c00 = uint u AND 0x7c00"
    by (rule js_and_small [OF uint_nonnegative uint16_less31]) simp_all
  have m: "(0x7c00 :: int) = push_bit 10 (mask 5)"
    by (simp add: mask_eq_exp_minus_1)
  have d: "drop_bit 10 (uint u AND push_bit 10 (mask 5)) = take_bit 5 (drop_bit 10 (uint u))"
    by (auto simp add: bit_eq_iff bit_simps)
  have "uint u AND 0x7c00 \<le> 0x7c00" by (rule AND_upper2) simp
  then have "uint u AND 0x7c00 < 2 ^ 32" by simp
  then have "js_ushr (uint u AND 0x7c00) (int 10) = (uint u AND 0x7c00) div 2 ^ 10"
    by (intro js_ushr_small) simp_all
  then have "js_ushr (js_and (uint u) 0x7c00) 10 = drop_bit 10 (uint u AND 0x7c00)"
    by (simp add: a drop_bit_eq_div)
  also have "\<dots> = take_bit 5 (drop_bit 10 (uint u))"
    using d by (simp only: m)
  finally show ?thesis
    by (simp add: drop_bit_eq_div take_bit_eq_mod)
qed

lemma half_fraction: "js_and (uint (u :: 16 word)) 0x03ff = uint u mod 1024"
  using js_and_mask [OF uint_nonnegative uint16_less31, of 10 u] by simp

text \<open>
  Every finite result is an integer multiple of \<open>2^-24\<close> with a numerator below \<open>2^40\<close>:
  a number that a double holds exactly.
\<close>

lemma float16_finite_dyadic:
  fixes u16 :: "16 word"
  assumes "reinterpretUint16AsFloat16 (uint u16) = Finite x"
  shows "\<exists>k :: int. x = real_of_int k / 2 ^ 24 \<and> \<bar>k\<bar> < 2 ^ 40"
proof -
  define E where "E = uint u16 div 1024 mod 32"
  define F where "F = uint u16 mod 1024"
  define sg :: int where "sg = (if 32768 \<le> uint u16 then - 1 else 1)"
  have F: "0 \<le> F" "F < 1024" by (simp_all add: F_def)
  have E: "0 \<le> E" "E < 32" by (simp_all add: E_def)
  have sg: "\<bar>sg\<bar> = 1" by (simp add: sg_def)
  have eq: "reinterpretUint16AsFloat16 (uint u16) =
      (if E = 0 then Finite (real_of_int sg * 2 powi (- 14) * (real_of_int F / 1024))
       else if E = 31 then (if F = 0 then times_Infinity sg else NaN)
       else Finite (real_of_int sg * 2 powi (E - 15) * (1 + real_of_int F / 1024)))"
    unfolding reinterpretUint16AsFloat16_def half_sign_bit half_exponent half_fraction Let_def
      E_def F_def sg_def
    by simp
  have inf: "times_Infinity sg \<noteq> Finite x"
    by (simp add: times_Infinity_def)
  show ?thesis
  proof (cases "E = 0")
    case True
    then have "x = real_of_int sg * 2 powi (- 14) * (real_of_int F / 1024)"
      using assms eq by simp
    then have "x = real_of_int (sg * F) / 2 ^ 24"
      by (simp add: power_int_minus field_simps)
    moreover have "\<bar>sg * F\<bar> < 2 ^ 40"
      using F sg by (simp add: abs_mult)
    ultimately show ?thesis by blast
  next
    case False
    then have e: "1 \<le> E" "E \<le> 30"
      using E assms eq inf by (auto split: if_splits)
    define j where "j = nat (E - 1)"
    have j: "E - 15 = int j - 14" "j < 30" using e by (simp_all add: j_def)
    have p: "(2::real) powi (E - 15) = 2 ^ j / 2 ^ 14"
      unfolding j(1) by (simp add: power_int_diff)
    have "x = real_of_int sg * 2 powi (E - 15) * (1 + real_of_int F / 1024)"
      using e assms eq by simp
    then have "x = real_of_int (sg * (1024 + F) * 2 ^ j) / 2 ^ 24"
      unfolding p by (simp add: field_simps)
    moreover have "\<bar>sg * (1024 + F) * 2 ^ j\<bar> < 2 ^ 40"
    proof -
      have "(2::int) ^ j \<le> 2 ^ 29" using j(2) by (intro power_increasing) auto
      then have "(1024 + F) * 2 ^ j \<le> 2047 * 2 ^ 29"
        using F by (intro mult_mono) auto
      then show ?thesis using F sg by (simp add: abs_mult)
    qed
    ultimately show ?thesis by blast
  qed
qed

text \<open>
  C5. For every 16-bit pattern with sign bit \<open>S\<close>, exponent field \<open>E\<close> (bits 10 to 14) and
  fraction field \<open>F\<close> (bits 0 to 9), \<open>reinterpretUint16AsFloat16\<close> returns
  \<open>sign * 2^-14 * (F / 1024)\<close> when \<open>E = 0\<close>, \<open>sign * 2^(E - 15) * (1 + F / 1024)\<close> when
  \<open>1 \<le> E \<le> 30\<close>, the signed infinity when \<open>E = 31\<close> and \<open>F = 0\<close>, and \<open>NaN\<close> when \<open>E = 31\<close>
  and \<open>F \<noteq> 0\<close>, where \<open>sign\<close> is \<open>-1\<close> if \<open>S\<close> is set and \<open>1\<close> otherwise.
\<close>

theorem float16_decode:
  fixes u16 :: "16 word"
  defines "S \<equiv> 32768 \<le> uint u16"
    and "E \<equiv> uint u16 div 1024 mod 32"
    and "F \<equiv> uint u16 mod 1024"
  defines "sign \<equiv> (if S then - 1 else 1 :: real)"
  shows "reinterpretUint16AsFloat16 (uint u16) =
     (if E = 0 then Finite (sign * (1 / 2 ^ 14) * (real_of_int F / 1024))
      else if 1 \<le> E \<and> E \<le> 30 then Finite (sign * 2 powi (E - 15) * (1 + real_of_int F / 1024))
      else if F = 0 then (if S then NegInfinity else PosInfinity)
      else NaN)"
proof -
  have "0 \<le> E" "E < 32" by (simp_all add: E_def)
  then show ?thesis
    unfolding reinterpretUint16AsFloat16_def half_sign_bit half_exponent half_fraction Let_def
      times_Infinity_def
    by (auto simp add: S_def E_def F_def sign_def power_int_minus field_simps)
qed


text \<open>
  The patterns of 1, of -2, of the largest finite value 65504, of the smallest subnormal
  \<open>2^-24\<close>, of both infinities and of a \<open>NaN\<close>.
\<close>

theorem float16_decode_witness:
  "reinterpretUint16AsFloat16 (uint (0x3C00 :: 16 word)) = Finite 1
   \<and> reinterpretUint16AsFloat16 (uint (0xC000 :: 16 word)) = Finite (- 2)
   \<and> reinterpretUint16AsFloat16 (uint (0x7BFF :: 16 word)) = Finite 65504
   \<and> reinterpretUint16AsFloat16 (uint (0x0001 :: 16 word)) = Finite (1 / 16777216)
   \<and> reinterpretUint16AsFloat16 (uint (0x7C00 :: 16 word)) = PosInfinity
   \<and> reinterpretUint16AsFloat16 (uint (0xFC00 :: 16 word)) = NegInfinity
   \<and> reinterpretUint16AsFloat16 (uint (0x7E00 :: 16 word)) = NaN"
  using float16_decode [of "0x3C00"] float16_decode [of "0xC000"] float16_decode [of "0x7BFF"]
    float16_decode [of "0x0001"] float16_decode [of "0x7C00"] float16_decode [of "0xFC00"]
    float16_decode [of "0x7E00"]
  by simp

subsection \<open>NUL-terminated strings\<close>

lemma indexOf_takeWhile:
  "indexOf bs v from =
     (if v \<in> set (drop from bs)
      then int (from + length (takeWhile (\<lambda>b. b \<noteq> v) (drop from bs)))
      else - 1)"
proof (induction bs v "from" rule: indexOf.induct)
  case (1 bs v "from")
  show ?case
  proof (cases "from < length bs")
    case False
    then show ?thesis by (simp add: indexOf.simps [of bs v "from"])
  next
    case True
    then have d: "drop from bs = bs ! from # drop (Suc from) bs"
      by (simp add: Cons_nth_drop_Suc)
    show ?thesis
    proof (cases "bs ! from = v")
      case True
      with \<open>from < length bs\<close> d show ?thesis by (simp add: indexOf.simps [of bs v "from"])
    next
      case False
      with \<open>from < length bs\<close> d "1.IH" [OF \<open>from < length bs\<close> False] show ?thesis
        by (simp add: indexOf.simps [of bs v "from"])
    qed
  qed
qed

text \<open>
  C7. For every reader state, \<open>readNulUtf8\<close> looks for the first zero byte at or after
  \<open>bytePos\<close>. If there is one, it hands the bytes before it to the decoder, all of them and
  nothing else, returns the decoded string and sets \<open>bytePos\<close> one past the zero byte; the
  fatal decoder's rejection of those bytes is passed on with the reader unchanged. If
  there is none, it fails with \<open>IncompleteStream\<close>.
\<close>

theorem readNulUtf8_spec:
  "readNulUtf8 decode s =
     (if 0 \<in> set (drop (bytePos s) (bytes s))
      then (let str = takeWhile (\<lambda>b. b \<noteq> 0) (drop (bytePos s) (bytes s))
            in case decode str of
                 None \<Rightarrow> Inl TypeError
               | Some result \<Rightarrow> Inr (result, s\<lparr>bytePos := bytePos s + length str + 1\<rparr>))
      else Inl IncompleteStream)"
proof -
  have "subarray bs p (p + length (takeWhile P (drop p bs))) = takeWhile P (drop p bs)"
    for bs :: "byte list" and p P
    by (simp add: subarray_def drop_take flip: takeWhile_eq_take)
  then show ?thesis
    by (simp add: readNulUtf8_def indexOf_takeWhile Let_def nat_int_add split: option.splits)
qed

theorem readNulUtf8_spec_witness:
  "readNulUtf8 Some \<lparr>bytePos = 1, bitPos = 0, bytes = [0x21, 0x68, 0x69, 0x00, 0x21, 0x00]\<rparr>
     = Inr ([0x68, 0x69], \<lparr>bytePos = 4, bitPos = 0, bytes = [0x21, 0x68, 0x69, 0x00, 0x21, 0x00]\<rparr>)
   \<and> readNulUtf8 Some \<lparr>bytePos = 1, bitPos = 0, bytes = [0x00, 0x68, 0x69]\<rparr>
     = (Inl IncompleteStream :: error + byte list \<times> ReadableStream)
   \<and> readNulUtf8 (\<lambda>bs. None) \<lparr>bytePos = 0, bitPos = 0, bytes = [0xff, 0x00]\<rparr>
     = (Inl TypeError :: error + byte list \<times> ReadableStream)"
  using readNulUtf8_spec [of Some "\<lparr>bytePos = 1, bitPos = 0, bytes = [0x21, 0x68, 0x69, 0x00, 0x21, 0x00]\<rparr>"]
    readNulUtf8_spec [of Some "\<lparr>bytePos = 1, bitPos = 0, bytes = [0x00, 0x68, 0x69]\<rparr>"]
    readNulUtf8_spec [of "\<lambda>bs. None :: byte list option" "\<lparr>bytePos = 0, bitPos = 0, bytes = [0xff, 0x00]\<rparr>"]
  by simp

subsection \<open>Equality of readers\<close>

lemma equals_loop_drop:
  assumes "bytePos left + n = length (bytes left)" "bytePos right + n = length (bytes right)"
  shows "i \<le> n \<Longrightarrow>
     equals_loop left right (int n) i \<longleftrightarrow> drop i (remaining left) = drop i (remaining right)"
proof (induction "n - i" arbitrary: i)
  case 0
  then have "i = n" by simp
  moreover have "length (remaining left) = n" "length (remaining right) = n"
    using assms by (simp_all add: remaining_def)
  ultimately show ?case
    by (simp add: equals_loop.simps [of left right "int n" n])
next
  case (Suc k)
  then have i: "i < n" by simp
  have len: "length (remaining left) = n" "length (remaining right) = n"
    using assms by (simp_all add: remaining_def)
  have dd: "drop j (remaining s) = drop (bytePos s + j) (bytes s)" for j s
    by (simp add: remaining_def add.commute)
  have dl: "drop i (remaining left) = bytes left ! (bytePos left + i) # drop (Suc i) (remaining left)"
    using i assms(1) Cons_nth_drop_Suc [of "bytePos left + i" "bytes left"] by (simp add: dd)
  have dr: "drop i (remaining right) = bytes right ! (bytePos right + i) # drop (Suc i) (remaining right)"
    using i assms(2) Cons_nth_drop_Suc [of "bytePos right + i" "bytes right"] by (simp add: dd)
  have el: "elem (bytes left) (bytePos left + i) = Some (bytes left ! (bytePos left + i))"
    "elem (bytes right) (bytePos right + i) = Some (bytes right ! (bytePos right + i))"
    using i assms by (simp_all add: elem_def)
  have ih: "equals_loop left right (int n) (Suc i)
      \<longleftrightarrow> drop (Suc i) (remaining left) = drop (Suc i) (remaining right)"
    using Suc.hyps(1) [of "Suc i"] Suc.hyps(2) i by simp
  show ?case
    using i ih by (subst equals_loop.simps) (simp add: el dl dr)
qed

lemma partial_byte_mask:
  assumes "0 < k" "k < 8"
  shows "js_and (uint (l :: byte)) (js_shl 1 (8 - int k) - 1)
       = js_and (uint (r :: byte)) (js_shl 1 (8 - int k) - 1)
     \<longleftrightarrow> take_bit (8 - k) l = take_bit (8 - k) r"
proof -
  have "(2::int) ^ (8 - k) \<le> 2 ^ 8" by (intro power_increasing) auto
  then have "1 * (2::int) ^ (8 - k) < 2 ^ 31" by simp
  then have "js_shl 1 (int (8 - k)) = 1 * 2 ^ (8 - k)"
    by (intro js_shl_small) simp_all
  then have sh: "js_shl 1 (8 - int k) = 2 ^ (8 - k)"
    using assms by (simp add: of_nat_diff)
  have m: "js_and (uint b) (2 ^ (8 - k) - 1) = uint b mod 2 ^ (8 - k)" for b :: byte
    by (rule js_and_mask [OF uint_nonnegative uint_byte_less31]) simp
  have "take_bit (8 - k) l = take_bit (8 - k) r
      \<longleftrightarrow> uint (take_bit (8 - k) l) = uint (take_bit (8 - k) r)"
    by (simp add: word_uint_eq_iff)
  also have "\<dots> \<longleftrightarrow> uint l mod 2 ^ (8 - k) = uint r mod 2 ^ (8 - k)"
    unfolding unsigned_take_bit_eq by (simp add: take_bit_eq_mod)
  finally show ?thesis by (simp add: sh m)
qed

lemma same_remaining_length:
  "same_remaining left right \<Longrightarrow> length (remaining left) = length (remaining right)"
  by (auto simp add: same_remaining_def split: if_splits list.splits)

lemma equals_in_bounds:
  assumes "bytePos left \<le> byteEnd left" "bytePos right \<le> byteEnd right" "bitPos left < 8"
  shows "equals left right \<longleftrightarrow> same_remaining left right"
proof (cases "bitPos left = bitPos right \<and> length (remaining left) = length (remaining right)")
  case False
  show ?thesis
  proof (cases "bitPos left = bitPos right")
    case False
    then show ?thesis by (simp add: equals_def same_remaining_def)
  next
    case True
    with False have ne: "length (remaining left) \<noteq> length (remaining right)" by simp
    then have "int (byteEnd left) - int (bytePos left) \<noteq> int (byteEnd right) - int (bytePos right)"
      using assms(1,2) by (simp add: remaining_def byteEnd_def)
    then have "\<not> equals left right" by (simp add: equals_def Let_def)
    moreover have "\<not> same_remaining left right" using ne same_remaining_length by blast
    ultimately show ?thesis by simp
  qed
next
  case True
  define n where "n = length (remaining left)"
  have l: "bytePos left + n = length (bytes left)" "bytePos right + n = length (bytes right)"
    using assms True by (auto simp add: n_def remaining_def byteEnd_def)
  have len: "int (byteEnd left) - int (bytePos left) = int n"
    "int (byteEnd right) - int (bytePos right) = int n"
    using l by (simp_all add: byteEnd_def)
  show ?thesis
  proof (cases "n = 0")
    case True
    then have "remaining left = []" "remaining right = []"
      using \<open>bitPos left = bitPos right \<and> length (remaining left) = length (remaining right)\<close>
      by (simp_all add: n_def)
    then show ?thesis
      using True \<open>bitPos left = bitPos right \<and> _\<close>
      by (simp add: equals_def same_remaining_def len Let_def)
  next
    case False
    then obtain x xs y ys where r: "remaining left = x # xs" "remaining right = y # ys"
      using True by (cases "remaining left"; cases "remaining right") (simp_all add: n_def)
    have lt: "bytePos left < length (bytes left)" "bytePos right < length (bytes right)"
      using l False by simp_all
    have hd: "bytes left ! bytePos left = x" "bytes right ! bytePos right = y"
      using r lt by (simp_all add: remaining_def hd_drop_conv_nth [symmetric])
    have loop0: "equals_loop left right (int n) 0 \<longleftrightarrow> remaining left = remaining right"
      using equals_loop_drop [OF l, of 0] by simp
    have loop1: "equals_loop left right (int n) 1 \<longleftrightarrow> xs = ys"
      using equals_loop_drop [OF l, of 1] False r by simp
    show ?thesis
    proof (cases "bitPos left = 0")
      case True
      then show ?thesis
        using False \<open>bitPos left = bitPos right \<and> _\<close> loop0
        by (simp add: equals_def same_remaining_def len Let_def)
    next
      case nz: False
      have pm: "js_and (uint x) (js_shl 1 (8 - int (bitPos left)) - 1)
            = js_and (uint y) (js_shl 1 (8 - int (bitPos left)) - 1)
          \<longleftrightarrow> take_bit (8 - bitPos left) x = take_bit (8 - bitPos left) y"
        using nz assms(3) by (intro partial_byte_mask) simp_all
      show ?thesis
        using False nz \<open>bitPos left = bitPos right \<and> _\<close> loop1 pm lt
        by (auto simp add: equals_def same_remaining_def len Let_def r elem_def elem_int_def hd)
    qed
  qed
qed

lemma equals_loop_past: "leftLen \<le> int i \<Longrightarrow> equals_loop left right leftLen i"
  by (simp add: equals_loop.simps [of left right leftLen i])

lemma equals_overrun:
  assumes "byteEnd left < bytePos left" "byteEnd right < bytePos right"
  shows "equals left right \<longleftrightarrow> bitPos left = bitPos right \<and> available left = available right"
proof -
  have neg: "int (byteEnd left) - int (bytePos left) < 0" using assms(1) by simp
  have el: "elem (bytes left) (bytePos left) = None" "elem (bytes right) (bytePos right) = None"
    using assms by (simp_all add: elem_def byteEnd_def)
  show ?thesis
    using neg
    by (auto simp add: equals_def available_def Let_def el elem_int_def equals_loop_past)
qed

text \<open>
  C8 (as amended). For every pair of readers with a bit offset below 8, \<open>equals\<close> returns
  true if and only if the two have the same bit offset, the same difference
  \<open>byteEnd - bytePos\<close> (what \<open>available\<close> returns, negative for a cursor past the end) and the
  same remaining bytes, the first remaining byte counting only in its low \<open>8 - bitPos\<close>
  bits under a bit offset. For two readers whose cursors lie inside their buffers the
  difference is the number of remaining bytes, and \<open>equals\<close> is true exactly for the same
  bit offset and the same remaining bytes, whatever the absolute offsets.
\<close>

theorem equals_same_remaining:
  assumes "bitPos left < 8"
  shows "(equals left right \<longleftrightarrow> available left = available right \<and> same_remaining left right)
    \<and> (bytePos left \<le> byteEnd left \<and> bytePos right \<le> byteEnd right \<longrightarrow>
         (equals left right \<longleftrightarrow> same_remaining left right))"
proof -
  have inb: "equals left right \<longleftrightarrow> same_remaining left right"
    if "bytePos left \<le> byteEnd left" "bytePos right \<le> byteEnd right"
    using that assms by (rule equals_in_bounds)
  have av: "available s = int (length (remaining s))" if "bytePos s \<le> byteEnd s" for s
    using that by (simp add: available_def remaining_def byteEnd_def)
  have rm: "remaining s = []" "available s < 0" if "byteEnd s < bytePos s" for s
    using that by (simp_all add: available_def remaining_def byteEnd_def)
  have gen: "equals left right \<longleftrightarrow> available left = available right \<and> same_remaining left right"
  proof (cases "bytePos left \<le> byteEnd left")
    case l: True
    show ?thesis
    proof (cases "bytePos right \<le> byteEnd right")
      case True
      have "same_remaining left right \<Longrightarrow> available left = available right"
        using same_remaining_length [of left right] av [OF l] av [OF True] by simp
      then show ?thesis using inb [OF l True] by blast
    next
      case False
      then have r: "byteEnd right < bytePos right" by simp
      have ne: "available left \<noteq> available right"
        using av [OF l] rm(2) [OF r] by simp
      then have "\<not> equals left right"
        by (simp add: equals_def available_def Let_def)
      with ne show ?thesis by simp
    qed
  next
    case False
    then have l: "byteEnd left < bytePos left" by simp
    show ?thesis
    proof (cases "bytePos right \<le> byteEnd right")
      case True
      have ne: "available left \<noteq> available right"
        using av [OF True] rm(2) [OF l] by simp
      then have "\<not> equals left right"
        by (simp add: equals_def available_def Let_def)
      with ne show ?thesis by simp
    next
      case False
      then have r: "byteEnd right < bytePos right" by simp
      have "same_remaining left right \<longleftrightarrow> bitPos left = bitPos right"
        using rm(1) [OF l] rm(1) [OF r] by (simp add: same_remaining_def)
      then show ?thesis using equals_overrun [OF l r] by blast
    qed
  qed
  show ?thesis using gen inb by blast
qed

text \<open>
  Two readers at different offsets, bit offset 3: the partial bytes \<open>0xE5\<close> and \<open>0x05\<close>
  agree in their low five bits and the rest is the same, so they are equal; with \<open>0x04\<close>
  for \<open>0x05\<close> they are not. A reader one byte past its end differs from an empty reader
  and equals another reader one byte past its end.
\<close>

theorem equals_same_remaining_witness:
  "equals \<lparr>bytePos = 2, bitPos = 3, bytes = [9, 9, 0xE5, 7]\<rparr>
          \<lparr>bytePos = 0, bitPos = 3, bytes = [0x05, 7]\<rparr>
   \<and> \<not> equals \<lparr>bytePos = 2, bitPos = 3, bytes = [9, 9, 0xE5, 7]\<rparr>
            \<lparr>bytePos = 0, bitPos = 3, bytes = [0x04, 7]\<rparr>
   \<and> \<not> equals \<lparr>bytePos = 2, bitPos = 0, bytes = [1]\<rparr> \<lparr>bytePos = 0, bitPos = 0, bytes = []\<rparr>
   \<and> equals \<lparr>bytePos = 2, bitPos = 0, bytes = [1]\<rparr> \<lparr>bytePos = 4, bitPos = 0, bytes = [5, 6, 7]\<rparr>"
proof -
  have "take_bit 5 (0xE5 :: byte) = take_bit 5 (0x05 :: byte)"
    "take_bit 5 (0xE5 :: byte) \<noteq> take_bit 5 (0x04 :: byte)"
    by (simp_all add: take_bit_eq_mod)
  then show ?thesis
    using equals_same_remaining [of "\<lparr>bytePos = 2, bitPos = 3, bytes = [9, 9, 0xE5, 7]\<rparr>"
        "\<lparr>bytePos = 0, bitPos = 3, bytes = [0x05, 7]\<rparr>"]
      equals_same_remaining [of "\<lparr>bytePos = 2, bitPos = 3, bytes = [9, 9, 0xE5, 7]\<rparr>"
        "\<lparr>bytePos = 0, bitPos = 3, bytes = [0x04, 7]\<rparr>"]
      equals_same_remaining [of "\<lparr>bytePos = 2, bitPos = 0, bytes = [1]\<rparr>"
        "\<lparr>bytePos = 0, bitPos = 0, bytes = []\<rparr>"]
      equals_same_remaining [of "\<lparr>bytePos = 2, bitPos = 0, bytes = [1]\<rparr>"
        "\<lparr>bytePos = 4, bitPos = 0, bytes = [5, 6, 7]\<rparr>"]
    by (simp add: byteEnd_def available_def same_remaining_def remaining_def)
qed

text \<open>
  A reader over the single byte 1 after \<open>skip(2)\<close> and a reader over no bytes have the same
  bit offset and the same remaining bytes, none, and \<open>equals\<close> returns false: the
  differences \<open>byteEnd - bytePos\<close> are \<open>-1\<close> and \<open>0\<close>.
\<close>

theorem equals_overrun_counterexample:
  "\<not> equals (skip 2 (ReadableStream_new [1] 0 0)) (ReadableStream_new [] 0 0)
   \<and> bitPos (skip 2 (ReadableStream_new [1] 0 0)) = bitPos (ReadableStream_new [] 0 0)
   \<and> remaining (skip 2 (ReadableStream_new [1] 0 0)) = remaining (ReadableStream_new [] 0 0)
   \<and> same_remaining (skip 2 (ReadableStream_new [1] 0 0)) (ReadableStream_new [] 0 0)"
  by (simp add: equals_def same_remaining_def remaining_def skip_def ReadableStream_new_def
      byteEnd_def Let_def)

section \<open>Properties of the writer\<close>

subsection \<open>Finalization\<close>

text \<open>
  C9. For every writer state, \<open>getBytes\<close> called twice in a row returns the same bytes
  both times, and after the first call the chunk sequence is the single chunk that was
  returned; the second call changes nothing.
\<close>

theorem getBytes_idempotent:
  "fst (getBytes (snd (getBytes w))) = fst (getBytes w)
   \<and> chunks (snd (getBytes w)) = [fst (getBytes w)]
   \<and> snd (getBytes (snd (getBytes w))) = snd (getBytes w)
   \<and> fst (getBytes w) = concat (chunks w)"
  by (simp add: getBytes_def concatBytes_def Let_def)

theorem getBytes_idempotent_witness:
  "fst (getBytes (snd (getBytes (writeBytes [3] (writeBytes [1, 2] WritableStream_new)))))
     = [1, 2, 3]
   \<and> chunks (snd (getBytes (writeBytes [3] (writeBytes [1, 2] WritableStream_new))))
     = [[1, 2, 3]]"
  using getBytes_idempotent [of "writeBytes [3] (writeBytes [1, 2] WritableStream_new)"]
  by (simp add: writeBytes_def WritableStream_new_def)

end
